theory Spec2Isabelle
  imports Main "HOL-Library.Word"
begin

section \<open>The bounded MPMC queue of MPMCQueue.h, run by one thread at a time\<close>

text \<open>
  The class \<^verbatim>\<open>MPMCQueue<T, cache_line_size>\<close> is embedded with explicit state passing.
  \<^verbatim>\<open>uint64_t\<close> is \<open>64 word\<close>, so \<open>+\<close> wraps at \<open>2 ^ 64\<close> as in the source;
  \<^verbatim>\<open>size_t\<close> is taken to be 64 bits wide as well (an x64 target).  Every call runs
  from its first statement to its return without another thread in between: an atomic
  load, store or compare-exchange is then an ordinary read or write of the field, and
  the memory orders have no effect.
\<close>

type_synonym u64 = "64 word"

text \<open>\<^verbatim>\<open>struct Item { std::atomic<uint64_t> version; T value; }\<close>\<close>

record 'a Item =
  version :: u64
  "value" :: 'a

text \<open>
  The data members.  \<open>m_items\<close> is the block that \<^verbatim>\<open>m_items\<close> points to, one list
  element per \<^verbatim>\<open>Item\<close> the block has room for.
\<close>

record 'a MPMCQueue =
  m_items :: "'a Item list"
  m_capacity :: u64
  m_head :: u64
  m_tail :: u64

text \<open>
  What C++ leaves undefined and a machine traps on: \<^verbatim>\<open>x % 0\<close>, a write through the
  null pointer that a failed \<^verbatim>\<open>_aligned_malloc\<close> returns, and an access behind the end
  of the allocated block.
\<close>

datatype error = DivisionByZero | NullPointer | OutOfBounds

subsection \<open>Construction\<close>

text \<open>
  \<^verbatim>\<open>for( size_t i = 0; i < capacity; ++i ) m_items[i].version = i;\<close>
  The loop counter is a \<^verbatim>\<open>size_t\<close>; it stays below \<open>capacity\<close>, so \<open>++i\<close> never wraps.
\<close>

function ctor_loop :: "u64 \<Rightarrow> u64 \<Rightarrow> 'a Item list \<Rightarrow> error + 'a Item list" where
  "ctor_loop i capacity items =
     (if i < capacity
      then (if length items \<le> unat i then Inl OutOfBounds
            else ctor_loop (i + 1) capacity (items[unat i := (items ! unat i)\<lparr>version := i\<rparr>]))
      else Inr items)"
  by pat_completeness auto
termination
proof (relation "measure (\<lambda>(i, capacity, items). unat capacity - unat i)")
  show "wf (measure (\<lambda>(i :: u64, capacity :: u64, items :: 'a Item list). unat capacity - unat i))"
    by simp
next
  fix i capacity :: u64 and items :: "'a Item list"
  assume lt: "i < capacity"
  then have "unat i < unat capacity"
    by (simp add: word_less_nat_alt)
  moreover have "unat capacity < 2 ^ 64"
    using unsigned_less [of capacity] by simp
  ultimately have "unat (i + 1) = unat i + 1"
    by (simp add: unat_word_ariths)
  with \<open>unat i < unat capacity\<close>
  show "((i + 1, capacity, items[unat i := (items ! unat i)\<lparr>version := i\<rparr>]), (i, capacity, items))
          \<in> measure (\<lambda>(i, capacity, items). unat capacity - unat i)"
    by simp
qed

declare ctor_loop.simps [simp del]

text \<open>
  The constructor.  \<open>mem\<close> is what \<^verbatim>\<open>_aligned_malloc( sizeof( Item ) * capacity,
  cache_line_size )\<close> returned: \<open>None\<close> for the null pointer of a failed allocation,
  \<open>Some block\<close> for a block whose uninitialised content is \<open>block\<close>.  The source does
  not test the pointer; the first write of the loop goes through it.
\<close>

definition MPMCQueue :: "u64 \<Rightarrow> 'a Item list option \<Rightarrow> error + 'a MPMCQueue" where
  "MPMCQueue capacity mem =
     (case mem of
        None \<Rightarrow>
          if 0 < capacity then Inl NullPointer
          else Inr \<lparr>m_items = [], m_capacity = capacity, m_head = 0, m_tail = 0\<rparr>
      | Some block \<Rightarrow>
          (case ctor_loop 0 capacity block of
             Inl e \<Rightarrow> Inl e
           | Inr items \<Rightarrow> Inr \<lparr>m_items = items, m_capacity = capacity, m_head = 0, m_tail = 0\<rparr>))"

subsection \<open>The operations\<close>

text \<open>
  \<^verbatim>\<open>std::atomic<uint64_t>::compare_exchange_strong( expected, desired )\<close> on an atomic
  that holds \<open>a\<close>: the result, the new content of the atomic and the new content of
  \<open>expected\<close>.
\<close>

definition compare_exchange_strong :: "u64 \<Rightarrow> u64 \<Rightarrow> u64 \<Rightarrow> bool \<times> u64 \<times> u64" where
  "compare_exchange_strong a expected desired =
     (if a = expected then (True, desired, expected) else (False, a, a))"

text \<open>\<^verbatim>\<open>m_items[pos % m_capacity]\<close>: the index, or the trap.\<close>

definition slot_index :: "'a MPMCQueue \<Rightarrow> u64 \<Rightarrow> error + nat" where
  "slot_index q pos =
     (if m_capacity q = 0 then Inl DivisionByZero
      else if length (m_items q) \<le> unat (pos mod m_capacity q) then Inl OutOfBounds
      else Inr (unat (pos mod m_capacity q)))"

definition try_enqueue :: "'a \<Rightarrow> 'a MPMCQueue \<Rightarrow> error + (bool \<times> 'a MPMCQueue)" where
  "try_enqueue v q =
     (let tail = m_tail q in
      case slot_index q tail of
        Inl e \<Rightarrow> Inl e
      | Inr i \<Rightarrow>
          if version (m_items q ! i) \<noteq> tail then Inr (False, q)
          else
            (case compare_exchange_strong (m_tail q) tail (tail + 1) of
               (False, t, _) \<Rightarrow> Inr (False, q\<lparr>m_tail := t\<rparr>)
             | (True, t, tail) \<Rightarrow>
                 let q = q\<lparr>m_tail := t\<rparr>;
                     q = q\<lparr>m_items := (m_items q)[i := (m_items q ! i)\<lparr>value := v\<rparr>]\<rparr>;
                     q = q\<lparr>m_items := (m_items q)[i := (m_items q ! i)\<lparr>version := tail + 1\<rparr>]\<rparr>
                 in Inr (True, q)))"

text \<open>The second component of the result is \<open>out\<close> after the call.\<close>

definition try_dequeue :: "'a \<Rightarrow> 'a MPMCQueue \<Rightarrow> error + (bool \<times> 'a \<times> 'a MPMCQueue)" where
  "try_dequeue out q =
     (let head = m_head q in
      case slot_index q head of
        Inl e \<Rightarrow> Inl e
      | Inr i \<Rightarrow>
          if version (m_items q ! i) \<noteq> head + 1 then Inr (False, out, q)
          else
            (case compare_exchange_strong (m_head q) head (head + 1) of
               (False, h, _) \<Rightarrow> Inr (False, out, q\<lparr>m_head := h\<rparr>)
             | (True, h, head) \<Rightarrow>
                 let q = q\<lparr>m_head := h\<rparr>;
                     out = value (m_items q ! i);
                     q = q\<lparr>m_items :=
                            (m_items q)[i := (m_items q ! i)\<lparr>version := head + m_capacity q\<rparr>]\<rparr>
                 in Inr (True, out, q)))"

definition capacity :: "'a MPMCQueue \<Rightarrow> u64" where
  "capacity q = m_capacity q"

subsection \<open>A thread that makes one call after the other\<close>

datatype 'a call = Enqueue 'a | Dequeue 'a

datatype 'a outcome = Enqueued bool | Dequeued bool 'a

fun succeeded :: "'a outcome \<Rightarrow> bool" where
  "succeeded (Enqueued b) = b"
| "succeeded (Dequeued b x) = b"

fun step :: "'a call \<Rightarrow> 'a MPMCQueue \<Rightarrow> error + ('a outcome \<times> 'a MPMCQueue)" where
  "step (Enqueue v) q =
     (case try_enqueue v q of Inl e \<Rightarrow> Inl e | Inr (b, q') \<Rightarrow> Inr (Enqueued b, q'))"
| "step (Dequeue out) q =
     (case try_dequeue out q of Inl e \<Rightarrow> Inl e | Inr (b, x, q') \<Rightarrow> Inr (Dequeued b x, q'))"

fun run :: "'a call list \<Rightarrow> 'a MPMCQueue \<Rightarrow> error + ('a outcome list \<times> 'a MPMCQueue)" where
  "run [] q = Inr ([], q)"
| "run (c # cs) q =
     (case step c q of
        Inl e \<Rightarrow> Inl e
      | Inr (r, q') \<Rightarrow>
          (case run cs q' of Inl e \<Rightarrow> Inl e | Inr (rs, q'') \<Rightarrow> Inr (r # rs, q'')))"

subsection \<open>Invariants and the abstract content\<close>

text \<open>
  A queue can be operated: its capacity is not zero and its block has room for
  \<open>m_capacity\<close> items.
\<close>

definition well_formed :: "'a MPMCQueue \<Rightarrow> bool" where
  "well_formed q \<longleftrightarrow> m_capacity q \<noteq> 0 \<and> unat (m_capacity q) \<le> length (m_items q)"

text \<open>
  The slot-version protocol, read on the counters as natural numbers: the sequence numbers
  from \<open>m_head\<close> up to \<open>m_tail\<close> are published and not yet consumed, their slots carry
  the sequence number plus one; the sequence numbers from \<open>m_tail\<close> up to
  \<open>m_head + m_capacity\<close> are free, their slots carry the sequence number itself.
\<close>

definition lifecycle :: "'a MPMCQueue \<Rightarrow> bool" where
  "lifecycle q \<longleftrightarrow>
     well_formed q \<and>
     unat (m_head q) \<le> unat (m_tail q) \<and>
     unat (m_tail q) \<le> unat (m_head q) + unat (m_capacity q) \<and>
     (\<forall>n. unat (m_head q) \<le> n \<and> n < unat (m_tail q) \<longrightarrow>
          unat (version (m_items q ! (n mod unat (m_capacity q)))) = n + 1) \<and>
     (\<forall>n. unat (m_tail q) \<le> n \<and> n < unat (m_head q) + unat (m_capacity q) \<longrightarrow>
          unat (version (m_items q ! (n mod unat (m_capacity q)))) = n)"

text \<open>The values that are published and not yet consumed, oldest first.\<close>

definition contents :: "'a MPMCQueue \<Rightarrow> 'a list" where
  "contents q =
     map (\<lambda>n. value (m_items q ! (n mod unat (m_capacity q)))) [unat (m_head q) ..< unat (m_tail q)]"

text \<open>
  The protocol on a queue of capacity 1, where the version \<open>n + 1\<close> of a published
  value is also the version \<open>n + capacity\<close> of a consumed one: the slot carries the
  version \<open>m_tail\<close> and the value enqueued last.  \<open>es\<close> are the values enqueued so far,
  \<open>ds\<close> the values dequeued so far.
\<close>

definition single_slot :: "'a MPMCQueue \<Rightarrow> 'a list \<Rightarrow> 'a list \<Rightarrow> bool" where
  "single_slot q es ds \<longleftrightarrow>
     well_formed q \<and> m_capacity q = 1 \<and>
     version (m_items q ! 0) = m_tail q \<and>
     unat (m_tail q) = length es \<and> unat (m_head q) = length ds \<and>
     ds = take (length ds) es \<and>
     (es \<noteq> [] \<longrightarrow> value (m_items q ! 0) = last es)"

text \<open>
  The values whose \<open>try_enqueue\<close> returned \<open>true\<close>, and the values that the calls of
  \<open>try_dequeue\<close> that returned \<open>true\<close> stored in \<open>out\<close>, in the order of the calls.
\<close>

fun enqueued_values :: "'a call list \<Rightarrow> 'a outcome list \<Rightarrow> 'a list" where
  "enqueued_values (Enqueue v # cs) (Enqueued True # rs) = v # enqueued_values cs rs"
| "enqueued_values (c # cs) (r # rs) = enqueued_values cs rs"
| "enqueued_values _ _ = []"

fun dequeued_values :: "'a outcome list \<Rightarrow> 'a list" where
  "dequeued_values (Dequeued True x # rs) = x # dequeued_values rs"
| "dequeued_values (r # rs) = dequeued_values rs"
| "dequeued_values [] = []"

section \<open>Construction\<close>

lemma unat_succ_less:
  fixes i c :: u64
  assumes "i < c"
  shows "unat (i + 1) = unat i + 1"
proof -
  from assms have "unat i < unat c" by (simp add: word_less_nat_alt)
  moreover have "unat c < 2 ^ 64" using unsigned_less [of c] by simp
  ultimately show ?thesis by (simp add: unat_word_ariths)
qed

lemma ctor_loop_ok:
  assumes "unat cap \<le> length items"
  shows "\<exists>items'. ctor_loop i cap items = Inr items' \<and> length items' = length items \<and>
           (\<forall>k. unat i \<le> k \<and> k < unat cap \<longrightarrow> version (items' ! k) = of_nat k) \<and>
           (\<forall>k. k < unat i \<longrightarrow> items' ! k = items ! k) \<and>
           (\<forall>k. value (items' ! k) = value (items ! k))"
  using assms
proof (induction i cap items rule: ctor_loop.induct)
  case (1 i cap items)
  show ?case
  proof (cases "i < cap")
    case False
    then have "unat cap \<le> unat i" by (simp add: word_less_nat_alt)
    moreover have "ctor_loop i cap items = Inr items"
      using False by (simp add: ctor_loop.simps [of i cap items])
    ultimately show ?thesis by auto
  next
    case True
    then have lt: "unat i < unat cap" by (simp add: word_less_nat_alt)
    with "1.prems" have inb: "\<not> length items \<le> unat i" by simp
    define items1 where "items1 = items[unat i := (items ! unat i)\<lparr>version := i\<rparr>]"
    have "unat cap \<le> length items1" using "1.prems" by (simp add: items1_def)
    from "1.IH" [OF True inb, folded items1_def, OF this]
    obtain items' where run: "ctor_loop (i + 1) cap items1 = Inr items'"
      and len: "length items' = length items1"
      and ver: "\<And>k. unat (i + 1) \<le> k \<Longrightarrow> k < unat cap \<Longrightarrow> version (items' ! k) = of_nat k"
      and low: "\<And>k. k < unat (i + 1) \<Longrightarrow> items' ! k = items1 ! k"
      and val: "\<And>k. value (items' ! k) = value (items1 ! k)"
      by blast
    have suc: "unat (i + 1) = unat i + 1" using True by (rule unat_succ_less)
    have here: "items1 ! unat i = (items ! unat i)\<lparr>version := i\<rparr>"
      using inb by (simp add: items1_def)
    have "ctor_loop i cap items = Inr items'"
      using True inb run by (simp add: ctor_loop.simps [of i cap items] items1_def)
    moreover have "length items' = length items" using len by (simp add: items1_def)
    moreover have "version (items' ! k) = of_nat k" if "unat i \<le> k" "k < unat cap" for k
    proof (cases "k = unat i")
      case True
      then show ?thesis using low [of k] suc here by simp
    next
      case False
      with that show ?thesis using ver [of k] suc by simp
    qed
    moreover have "items' ! k = items ! k" if "k < unat i" for k
      using that low [of k] suc by (simp add: items1_def)
    moreover have "value (items' ! k) = value (items ! k)" for k
      using val [of k] here by (cases "k = unat i") (simp_all add: items1_def)
    ultimately show ?thesis by blast
  qed
qed

lemma ctor_loop_short:
  assumes "length items < unat cap" and "unat i \<le> length items"
  shows "ctor_loop i cap items = Inl OutOfBounds"
  using assms
proof (induction i cap items rule: ctor_loop.induct)
  case (1 i cap items)
  from "1.prems" have "unat i < unat cap" by simp
  then have lt: "i < cap" by (simp add: word_less_nat_alt)
  show ?case
  proof (cases "length items \<le> unat i")
    case True
    with lt show ?thesis by (simp add: ctor_loop.simps [of i cap items])
  next
    case False
    have "unat (i + 1) = unat i + 1" using lt by (rule unat_succ_less)
    with False "1.prems" "1.IH" [OF lt False]
    have "ctor_loop (i + 1) cap (items[unat i := (items ! unat i)\<lparr>version := i\<rparr>]) = Inl OutOfBounds"
      by simp
    with lt False show ?thesis by (simp add: ctor_loop.simps [of i cap items])
  qed
qed

lemma MPMCQueue_room:
  assumes "unat cap \<le> length block"
  shows "\<exists>q. MPMCQueue cap (Some block) = Inr q \<and> m_capacity q = cap \<and> m_head q = 0 \<and>
           m_tail q = 0 \<and> length (m_items q) = length block \<and>
           (\<forall>i < unat cap. version (m_items q ! i) = of_nat i) \<and>
           (\<forall>i. value (m_items q ! i) = value (block ! i))"
proof -
  from ctor_loop_ok [OF assms, of 0]
  obtain items where "ctor_loop 0 cap block = Inr items" and "length items = length block"
    and "\<forall>k. unat (0 :: u64) \<le> k \<and> k < unat cap \<longrightarrow> version (items ! k) = of_nat k"
    and "\<forall>k. value (items ! k) = value (block ! k)"
    by blast
  then show ?thesis
    by (simp add: MPMCQueue_def)
qed

lemma MPMCQueue_null:
  assumes "0 < cap"
  shows "MPMCQueue cap None = Inl NullPointer"
  using assms by (simp add: MPMCQueue_def)

lemma MPMCQueue_short:
  assumes "length block < unat cap"
  shows "MPMCQueue cap (Some block) = Inl OutOfBounds"
proof -
  from assms have "ctor_loop 0 cap block = Inl OutOfBounds"
    by (rule ctor_loop_short) simp
  then show ?thesis by (simp add: MPMCQueue_def)
qed

lemma MPMCQueue_fresh:
  fixes q :: "'a MPMCQueue"
  assumes "MPMCQueue cap mem = Inr q" and "0 < cap"
  shows "m_capacity q = cap" and "m_head q = 0" and "m_tail q = 0"
    and "unat cap \<le> length (m_items q)"
    and "\<And>i. i < unat cap \<Longrightarrow> version (m_items q ! i) = of_nat i"
proof -
  have "mem \<noteq> None"
  proof
    assume "mem = None"
    with assms(1) have "MPMCQueue cap None = Inr q" by simp
    moreover have "MPMCQueue cap (None :: 'a Item list option) = Inl NullPointer"
      by (rule MPMCQueue_null [OF assms(2)])
    ultimately show False by simp
  qed
  then obtain block where mem: "mem = Some block" by auto
  have room: "unat cap \<le> length block"
  proof (rule ccontr)
    assume "\<not> unat cap \<le> length block"
    then have "length block < unat cap" by simp
    from MPMCQueue_short [OF this] assms(1) mem show False by simp
  qed
  from MPMCQueue_room [OF room] assms(1) mem
  show "m_capacity q = cap" and "m_head q = 0" and "m_tail q = 0"
    and "unat cap \<le> length (m_items q)"
    and "\<And>i. i < unat cap \<Longrightarrow> version (m_items q ! i) = of_nat i"
    using room by auto
qed

lemma MPMCQueue_capacity:
  "MPMCQueue cap mem = Inr q \<Longrightarrow> m_capacity q = cap"
  by (auto simp: MPMCQueue_def split: option.splits sum.splits if_splits)

text \<open>
  Claim C7, as the code has it: constructing a queue with a positive capacity on a block
  with room for \<open>capacity\<close> items succeeds, sets the version of slot \<open>i\<close> to \<open>i\<close> for
  every \<open>i\<close> below the capacity, sets \<open>head = tail = 0\<close> and leaves the payloads as
  the allocator gave them.  The constructor does not test the allocator's result and
  propagates no allocation failure: on the null pointer of a failed allocation the first
  write of the loop, \<^verbatim>\<open>m_items[0].version = 0\<close>, goes through the null pointer.
\<close>

theorem construction:
  assumes "0 < cap"
  shows "case mem of
           None \<Rightarrow> MPMCQueue cap mem = Inl NullPointer
         | Some block \<Rightarrow>
             unat cap \<le> length block \<longrightarrow>
             (\<exists>q. MPMCQueue cap mem = Inr q \<and> m_head q = 0 \<and> m_tail q = 0 \<and> m_capacity q = cap \<and>
                  length (m_items q) = length block \<and>
                  (\<forall>i < unat cap. version (m_items q ! i) = of_nat i) \<and>
                  (\<forall>i. value (m_items q ! i) = value (block ! i)))"
proof (cases mem)
  case None
  with MPMCQueue_null [OF assms] show ?thesis by simp
next
  case (Some block)
  show ?thesis
  proof (cases "unat cap \<le> length block")
    case True
    from MPMCQueue_room [OF True] Some show ?thesis by auto
  next
    case False
    with Some show ?thesis by simp
  qed
qed

theorem construction_witness:
  "0 < (3 :: u64) \<and>
   unat (3 :: u64) \<le> length [\<lparr>version = 7, value = ''x''\<rparr>, \<lparr>version = 8, value = ''y''\<rparr>,
                              \<lparr>version = 9, value = ''z''\<rparr>] \<and>
   MPMCQueue 3 (Some [\<lparr>version = 7, value = ''x''\<rparr>, \<lparr>version = 8, value = ''y''\<rparr>,
                      \<lparr>version = 9, value = ''z''\<rparr>])
     = Inr \<lparr>m_items = [\<lparr>version = 0, value = ''x''\<rparr>, \<lparr>version = 1, value = ''y''\<rparr>,
                       \<lparr>version = 2, value = ''z''\<rparr>],
            m_capacity = 3, m_head = 0, m_tail = 0\<rparr> \<and>
   (\<exists>q. MPMCQueue 3 (Some [\<lparr>version = 7, value = ''x''\<rparr>, \<lparr>version = 8, value = ''y''\<rparr>,
                           \<lparr>version = 9, value = ''z''\<rparr>]) = Inr q \<and>
        m_head q = 0 \<and> m_tail q = 0 \<and> m_capacity q = 3 \<and>
        version (m_items q ! 0) = 0 \<and> version (m_items q ! 1) = 1 \<and> version (m_items q ! 2) = 2) \<and>
   MPMCQueue 3 (None :: string Item list option) = Inl NullPointer"
proof -
  have pos: "0 < (3 :: u64)" by simp
  have room: "unat (3 :: u64) \<le> length [\<lparr>version = 7, value = ''x''\<rparr>, \<lparr>version = 8, value = ''y''\<rparr>,
                              \<lparr>version = 9, value = ''z''\<rparr>]"
    by simp
  have a: "MPMCQueue 3 (Some [\<lparr>version = 7, value = ''x''\<rparr>, \<lparr>version = 8, value = ''y''\<rparr>,
                      \<lparr>version = 9, value = ''z''\<rparr>])
     = Inr \<lparr>m_items = [\<lparr>version = 0, value = ''x''\<rparr>, \<lparr>version = 1, value = ''y''\<rparr>,
                       \<lparr>version = 2, value = ''z''\<rparr>],
            m_capacity = 3, m_head = 0, m_tail = 0\<rparr>"
    by (simp add: MPMCQueue_def ctor_loop.simps)
  from construction [OF pos, of "Some [\<lparr>version = 7, value = ''x''\<rparr>, \<lparr>version = 8, value = ''y''\<rparr>,
                      \<lparr>version = 9, value = ''z''\<rparr>]"] room
  obtain q where q: "MPMCQueue 3 (Some [\<lparr>version = 7, value = ''x''\<rparr>, \<lparr>version = 8, value = ''y''\<rparr>,
                           \<lparr>version = 9, value = ''z''\<rparr>]) = Inr q"
    and "m_head q = 0" "m_tail q = 0" "m_capacity q = 3"
    and v: "\<And>i. i < 3 \<Longrightarrow> version (m_items q ! i) = of_nat i"
    by auto
  moreover from v [of 0] v [of 1] v [of 2]
  have "version (m_items q ! 0) = 0" "version (m_items q ! 1) = 1" "version (m_items q ! 2) = 2"
    by simp_all
  ultimately have b: "\<exists>q. MPMCQueue 3 (Some [\<lparr>version = 7, value = ''x''\<rparr>, \<lparr>version = 8, value = ''y''\<rparr>,
                           \<lparr>version = 9, value = ''z''\<rparr>]) = Inr q \<and>
        m_head q = 0 \<and> m_tail q = 0 \<and> m_capacity q = 3 \<and>
        version (m_items q ! 0) = 0 \<and> version (m_items q ! 1) = 1 \<and> version (m_items q ! 2) = 2"
    by blast
  from construction [OF pos, of "None :: string Item list option"]
  have c: "MPMCQueue 3 (None :: string Item list option) = Inl NullPointer"
    by simp
  from pos room a b c show ?thesis by blast
qed

text \<open>
  Claim C7 says that construction fails exactly when the allocation fails and propagates
  the allocation failure.  The code does otherwise in two cases.  A failure without a
  failed allocation: for capacity \<open>2 ^ 58 + 1\<close> and an item of 64 bytes the requested size
  \<^verbatim>\<open>sizeof( Item ) * capacity\<close> wraps to 64, the allocator returns a block of one item,
  and the second write of the loop lies behind its end.  And with a failed allocation
  nothing is tested or propagated, the result is the write through the null pointer.
\<close>

theorem construction_counterexample:
  "MPMCQueue 288230376151711745 (Some [\<lparr>version = 7, value = CHR ''x''\<rparr>]) = Inl OutOfBounds \<and>
   MPMCQueue 1 (None :: char Item list option) = Inl NullPointer"
  by (simp add: MPMCQueue_def ctor_loop.simps)

section \<open>Calls on a constructed queue\<close>

lemma fresh_well_formed:
  assumes "MPMCQueue cap mem = Inr q" and "0 < cap"
  shows "well_formed q"
  using MPMCQueue_fresh(1,4) [OF assms] assms(2)
  by (auto simp: well_formed_def)

lemma slot_index_well_formed:
  assumes "well_formed q"
  shows "slot_index q pos = Inr (unat pos mod unat (m_capacity q))"
    and "unat pos mod unat (m_capacity q) < length (m_items q)"
proof -
  from assms have c: "0 < unat (m_capacity q)" and l: "unat (m_capacity q) \<le> length (m_items q)"
    by (simp_all add: well_formed_def unat_gt_0)
  from c have "unat pos mod unat (m_capacity q) < unat (m_capacity q)"
    by simp
  with l show "unat pos mod unat (m_capacity q) < length (m_items q)"
    by simp
  with assms show "slot_index q pos = Inr (unat pos mod unat (m_capacity q))"
    by (simp add: slot_index_def well_formed_def unat_mod)
qed

lemma Item_overwrite:
  "(r :: 'a Item)\<lparr>value := v, version := w\<rparr> = \<lparr>version = w, value = v\<rparr>"
  by (cases r) simp

lemma try_enqueue_well_formed:
  assumes "well_formed q"
  shows "try_enqueue v q =
     (let i = unat (m_tail q) mod unat (m_capacity q) in
      if version (m_items q ! i) = m_tail q
      then Inr (True, q\<lparr>m_items := (m_items q)[i := \<lparr>version = m_tail q + 1, value = v\<rparr>],
                        m_tail := m_tail q + 1\<rparr>)
      else Inr (False, q))"
  using slot_index_well_formed [OF assms, of "m_tail q"]
  by (simp add: try_enqueue_def compare_exchange_strong_def Let_def Item_overwrite)

lemma try_dequeue_well_formed:
  assumes "well_formed q"
  shows "try_dequeue out q =
     (let i = unat (m_head q) mod unat (m_capacity q) in
      if version (m_items q ! i) = m_head q + 1
      then Inr (True, value (m_items q ! i),
                q\<lparr>m_items := (m_items q)[i := (m_items q ! i)\<lparr>version := m_head q + m_capacity q\<rparr>],
                  m_head := m_head q + 1\<rparr>)
      else Inr (False, out, q))"
  using slot_index_well_formed [OF assms, of "m_head q"]
  by (simp add: try_dequeue_def compare_exchange_strong_def Let_def)

lemma try_enqueue_preserves_well_formed:
  assumes "well_formed q" and "try_enqueue v q = Inr (b, q')"
  shows "well_formed q'"
  using assms(2) assms(1)
  by (auto simp: try_enqueue_well_formed [OF assms(1)] Let_def well_formed_def split: if_splits)

lemma try_dequeue_preserves_well_formed:
  assumes "well_formed q" and "try_dequeue out q = Inr (b, x, q')"
  shows "well_formed q'"
  using assms(2) assms(1)
  by (auto simp: try_dequeue_well_formed [OF assms(1)] Let_def well_formed_def split: if_splits)

lemma step_well_formed:
  assumes "well_formed q"
  shows "\<exists>r q'. step c q = Inr (r, q') \<and> well_formed q'"
proof (cases c)
  case (Enqueue v)
  have "\<exists>b q'. try_enqueue v q = Inr (b, q')"
    by (auto simp: try_enqueue_well_formed [OF assms] Let_def)
  then obtain b q' where "try_enqueue v q = Inr (b, q')" by blast
  with Enqueue try_enqueue_preserves_well_formed [OF assms this] show ?thesis by simp
next
  case (Dequeue out)
  have "\<exists>b x q'. try_dequeue out q = Inr (b, x, q')"
    by (auto simp: try_dequeue_well_formed [OF assms] Let_def)
  then obtain b x q' where "try_dequeue out q = Inr (b, x, q')" by blast
  with Dequeue try_dequeue_preserves_well_formed [OF assms this] show ?thesis by simp
qed

lemma run_well_formed:
  assumes "well_formed q"
  shows "\<exists>rs q'. run cs q = Inr (rs, q') \<and> well_formed q' \<and> length rs = length cs"
  using assms
proof (induction cs arbitrary: q)
  case Nil
  then show ?case by simp
next
  case (Cons c cs)
  from step_well_formed [OF Cons.prems, of c]
  obtain r q1 where s: "step c q = Inr (r, q1)" and w: "well_formed q1" by blast
  from Cons.IH [OF w] obtain rs q' where "run cs q1 = Inr (rs, q')" "well_formed q'" "length rs = length cs"
    by blast
  with s show ?case by simp
qed

section \<open>The capacity is fixed\<close>

lemma try_enqueue_capacity:
  "try_enqueue v q = Inr (b, q') \<Longrightarrow> m_capacity q' = m_capacity q"
  by (auto simp: try_enqueue_def compare_exchange_strong_def Let_def split: sum.splits if_splits)

lemma try_dequeue_capacity:
  "try_dequeue out q = Inr (b, x, q') \<Longrightarrow> m_capacity q' = m_capacity q"
  by (auto simp: try_dequeue_def compare_exchange_strong_def Let_def split: sum.splits if_splits)

lemma step_capacity:
  "step c q = Inr (r, q') \<Longrightarrow> m_capacity q' = m_capacity q"
  by (cases c) (auto split: sum.splits dest: try_enqueue_capacity try_dequeue_capacity)

lemma run_capacity:
  "run cs q = Inr (rs, q') \<Longrightarrow> m_capacity q' = m_capacity q"
proof (induction cs arbitrary: q rs)
  case Nil
  then show ?case by simp
next
  case (Cons c cs)
  from Cons.prems obtain r q1 rs1 where s: "step c q = Inr (r, q1)" and r: "run cs q1 = Inr (rs1, q')"
    by (auto split: sum.splits)
  from Cons.IH [OF r] step_capacity [OF s] show ?case by simp
qed

text \<open>
  Claim C8: \<open>capacity()\<close> returns the capacity given to the constructor, whatever calls
  of \<open>try_enqueue\<close> and \<open>try_dequeue\<close> were made on the queue since; the field
  \<open>m_capacity\<close> is never written after construction.
\<close>

theorem capacity_fixed:
  assumes "MPMCQueue cap mem = Inr q0" and "run cs q0 = Inr (rs, q)"
  shows "capacity q = cap \<and> m_capacity q = cap"
  using run_capacity [OF assms(2)] MPMCQueue_capacity [OF assms(1)]
  by (simp add: capacity_def)

theorem capacity_fixed_witness:
  "MPMCQueue 2 (Some [\<lparr>version = 9, value = 0 :: nat\<rparr>, \<lparr>version = 9, value = 0\<rparr>])
     = Inr \<lparr>m_items = [\<lparr>version = 0, value = 0\<rparr>, \<lparr>version = 1, value = 0\<rparr>],
            m_capacity = 2, m_head = 0, m_tail = 0\<rparr>
   \<and> run [Enqueue (5 :: nat), Dequeue 0, Dequeue 0]
        \<lparr>m_items = [\<lparr>version = 0, value = 0\<rparr>, \<lparr>version = 1, value = 0\<rparr>],
         m_capacity = 2, m_head = 0, m_tail = 0\<rparr>
     = Inr ([Enqueued True, Dequeued True 5, Dequeued False 0],
            \<lparr>m_items = [\<lparr>version = 2, value = 5\<rparr>, \<lparr>version = 1, value = 0\<rparr>],
             m_capacity = 2, m_head = 1, m_tail = 1\<rparr>)
   \<and> capacity \<lparr>m_items = [\<lparr>version = 2, value = 5 :: nat\<rparr>, \<lparr>version = 1, value = 0\<rparr>],
             m_capacity = 2, m_head = 1, m_tail = 1\<rparr> = 2"
proof -
  have a: "MPMCQueue 2 (Some [\<lparr>version = 9, value = 0 :: nat\<rparr>, \<lparr>version = 9, value = 0\<rparr>])
     = Inr \<lparr>m_items = [\<lparr>version = 0, value = 0\<rparr>, \<lparr>version = 1, value = 0\<rparr>],
            m_capacity = 2, m_head = 0, m_tail = 0\<rparr>"
    by (simp add: MPMCQueue_def ctor_loop.simps)
  have b: "run [Enqueue (5 :: nat), Dequeue 0, Dequeue 0]
        \<lparr>m_items = [\<lparr>version = 0, value = 0\<rparr>, \<lparr>version = 1, value = 0\<rparr>],
         m_capacity = 2, m_head = 0, m_tail = 0\<rparr>
     = Inr ([Enqueued True, Dequeued True 5, Dequeued False 0],
            \<lparr>m_items = [\<lparr>version = 2, value = 5\<rparr>, \<lparr>version = 1, value = 0\<rparr>],
             m_capacity = 2, m_head = 1, m_tail = 1\<rparr>)"
    by (simp add: try_enqueue_def try_dequeue_def slot_index_def compare_exchange_strong_def)
  from a b capacity_fixed [OF a b] show ?thesis by blast
qed

section \<open>The counters\<close>

lemma unat_succ:
  fixes w :: u64
  assumes "unat w + 1 < 2 ^ 64"
  shows "unat (w + 1) = unat w + 1"
  using assms by (simp add: unat_word_ariths)

lemma unat_plus:
  fixes a b :: u64
  assumes "unat a + unat b < 2 ^ 64"
  shows "unat (a + b) = unat a + unat b"
  using assms by (simp add: unat_word_ariths)

lemma step_counters:
  assumes "step c q = Inr (r, q')"
  shows "(m_head q', m_tail q') =
           (if \<not> succeeded r then (m_head q, m_tail q)
            else case c of Enqueue v \<Rightarrow> (m_head q, m_tail q + 1)
                         | Dequeue out \<Rightarrow> (m_head q + 1, m_tail q))"
proof (cases c)
  case (Enqueue v)
  with assms obtain b where "try_enqueue v q = Inr (b, q')" and "r = Enqueued b"
    by (auto split: sum.splits)
  with Enqueue show ?thesis
    by (auto simp: try_enqueue_def compare_exchange_strong_def Let_def split: sum.splits if_splits)
next
  case (Dequeue out)
  with assms obtain b x where "try_dequeue out q = Inr (b, x, q')" and "r = Dequeued b x"
    by (auto split: sum.splits)
  with Dequeue show ?thesis
    by (auto simp: try_dequeue_def compare_exchange_strong_def Let_def split: sum.splits if_splits)
qed

lemma step_counters_nat:
  assumes "step c q = Inr (r, q')"
    and "unat (m_head q) < 2 ^ 64 - 1" and "unat (m_tail q) < 2 ^ 64 - 1"
  shows "unat (m_head q) \<le> unat (m_head q')" and "unat (m_head q') \<le> unat (m_head q) + 1"
    and "unat (m_tail q) \<le> unat (m_tail q')" and "unat (m_tail q') \<le> unat (m_tail q) + 1"
proof -
  have h: "unat (m_head q + 1) = unat (m_head q) + 1"
    using assms(2) by (intro unat_succ) simp
  have t: "unat (m_tail q + 1) = unat (m_tail q) + 1"
    using assms(3) by (intro unat_succ) simp
  from step_counters [OF assms(1)] h t
  show "unat (m_head q) \<le> unat (m_head q')" and "unat (m_head q') \<le> unat (m_head q) + 1"
    and "unat (m_tail q) \<le> unat (m_tail q')" and "unat (m_tail q') \<le> unat (m_tail q) + 1"
    by (auto split: if_splits call.splits)
qed

lemma run_counters:
  assumes "run cs q = Inr (rs, q')"
    and "unat (m_head q) + length cs < 2 ^ 64" and "unat (m_tail q) + length cs < 2 ^ 64"
  shows "m_head q \<le> m_head q' \<and> m_tail q \<le> m_tail q'"
  using assms
proof (induction cs arbitrary: q rs)
  case Nil
  then show ?case by simp
next
  case (Cons c cs)
  from Cons.prems(1) obtain r q1 rs1 where s: "step c q = Inr (r, q1)" and r: "run cs q1 = Inr (rs1, q')"
    by (auto split: sum.splits)
  from Cons.prems(2,3) have b: "unat (m_head q) < 2 ^ 64 - 1" "unat (m_tail q) < 2 ^ 64 - 1"
    by simp_all
  note k = step_counters_nat [OF s b]
  from k Cons.prems(2,3) have "unat (m_head q1) + length cs < 2 ^ 64" "unat (m_tail q1) + length cs < 2 ^ 64"
    by simp_all
  from Cons.IH [OF r this] k(1,3) show ?case
    by (simp add: word_le_nat_alt)
qed

text \<open>
  Claim C6: a call of \<open>try_enqueue\<close> or \<open>try_dequeue\<close> that returns \<open>false\<close> leaves
  \<open>head\<close> and \<open>tail\<close> as they were; a successful \<open>try_enqueue\<close> adds exactly 1 to
  \<open>tail\<close> and leaves \<open>head\<close>, a successful \<open>try_dequeue\<close> adds exactly 1 to \<open>head\<close>
  and leaves \<open>tail\<close>; no call decreases a counter.  The counters are read as natural
  numbers below the 64-bit boundary, where the specification leaves the wrap-around out of
  scope: a counter that holds \<open>2 ^ 64 - 1\<close> is incremented to 0.
\<close>

theorem counters_monotone:
  assumes "step c q = Inr (r, q')"
    and "unat (m_head q) < 2 ^ 64 - 1" and "unat (m_tail q) < 2 ^ 64 - 1"
  shows "(unat (m_head q'), unat (m_tail q')) =
           (if \<not> succeeded r then (unat (m_head q), unat (m_tail q))
            else case c of Enqueue v \<Rightarrow> (unat (m_head q), unat (m_tail q) + 1)
                         | Dequeue out \<Rightarrow> (unat (m_head q) + 1, unat (m_tail q)))
         \<and> m_head q \<le> m_head q' \<and> m_tail q \<le> m_tail q'"
proof -
  have h: "unat (m_head q + 1) = unat (m_head q) + 1"
    using assms(2) by (intro unat_succ) simp
  have t: "unat (m_tail q + 1) = unat (m_tail q) + 1"
    using assms(3) by (intro unat_succ) simp
  from step_counters [OF assms(1)] h t step_counters_nat(1,3) [OF assms]
  show ?thesis
    by (auto simp: word_le_nat_alt split: if_splits call.splits)
qed

theorem counters_monotone_witness:
  "step (Enqueue (5 :: nat))
        \<lparr>m_items = [\<lparr>version = 0, value = 0\<rparr>, \<lparr>version = 1, value = 0\<rparr>],
         m_capacity = 2, m_head = 0, m_tail = 0\<rparr>
     = Inr (Enqueued True,
            \<lparr>m_items = [\<lparr>version = 1, value = 5\<rparr>, \<lparr>version = 1, value = 0\<rparr>],
             m_capacity = 2, m_head = 0, m_tail = 1\<rparr>)
   \<and> unat (0 :: u64) < 2 ^ 64 - 1
   \<and> (unat (0 :: u64), unat (1 :: u64)) = (unat (0 :: u64), unat (0 :: u64) + 1)
   \<and> (0 :: u64) \<le> 0 \<and> (0 :: u64) \<le> 1"
proof -
  have a: "step (Enqueue (5 :: nat))
        \<lparr>m_items = [\<lparr>version = 0, value = 0\<rparr>, \<lparr>version = 1, value = 0\<rparr>],
         m_capacity = 2, m_head = 0, m_tail = 0\<rparr>
     = Inr (Enqueued True,
            \<lparr>m_items = [\<lparr>version = 1, value = 5\<rparr>, \<lparr>version = 1, value = 0\<rparr>],
             m_capacity = 2, m_head = 0, m_tail = 1\<rparr>)"
    by (simp add: try_enqueue_def slot_index_def compare_exchange_strong_def)
  have b: "unat (0 :: u64) < 2 ^ 64 - 1" by simp
  from counters_monotone [OF a] b a show ?thesis by simp
qed

section \<open>Dequeuing from an empty queue\<close>

text \<open>
  Claim C5: in every state that a constructed queue reaches by calls of \<open>try_enqueue\<close>
  and \<open>try_dequeue\<close>, if the queue is empty (\<open>head = tail\<close>, and the slot at
  \<open>head mod capacity\<close> does not carry the version \<open>head + 1\<close> of a published value),
  then \<open>try_dequeue\<close> returns \<open>false\<close>, leaves \<open>out\<close> as it was and leaves the whole
  queue (head, tail, every version and every payload) as it was.
\<close>

theorem try_dequeue_on_empty:
  assumes "MPMCQueue cap mem = Inr q0" and "0 < cap" and "run cs q0 = Inr (rs, q)"
    and "m_head q = m_tail q"
    and "version (m_items q ! unat (m_head q mod m_capacity q)) \<noteq> m_head q + 1"
  shows "try_dequeue out q = Inr (False, out, q)"
proof -
  from run_well_formed [OF fresh_well_formed [OF assms(1,2)], of cs] assms(3)
  have wf: "well_formed q" by auto
  from assms(5) show ?thesis
    by (simp add: try_dequeue_well_formed [OF wf] Let_def unat_mod)
qed

theorem try_dequeue_on_empty_witness:
  "MPMCQueue 2 (Some [\<lparr>version = 9, value = 0 :: nat\<rparr>, \<lparr>version = 9, value = 0\<rparr>])
     = Inr \<lparr>m_items = [\<lparr>version = 0, value = 0\<rparr>, \<lparr>version = 1, value = 0\<rparr>],
            m_capacity = 2, m_head = 0, m_tail = 0\<rparr>
   \<and> 0 < (2 :: u64)
   \<and> run [Enqueue (5 :: nat), Dequeue 0]
        \<lparr>m_items = [\<lparr>version = 0, value = 0\<rparr>, \<lparr>version = 1, value = 0\<rparr>],
         m_capacity = 2, m_head = 0, m_tail = 0\<rparr>
     = Inr ([Enqueued True, Dequeued True 5],
            \<lparr>m_items = [\<lparr>version = 2, value = 5\<rparr>, \<lparr>version = 1, value = 0\<rparr>],
             m_capacity = 2, m_head = 1, m_tail = 1\<rparr>)
   \<and> try_dequeue (7 :: nat)
        \<lparr>m_items = [\<lparr>version = 2, value = 5\<rparr>, \<lparr>version = 1, value = 0\<rparr>],
         m_capacity = 2, m_head = 1, m_tail = 1\<rparr>
     = Inr (False, 7, \<lparr>m_items = [\<lparr>version = 2, value = 5\<rparr>, \<lparr>version = 1, value = 0\<rparr>],
                      m_capacity = 2, m_head = 1, m_tail = 1\<rparr>)"
proof -
  have a: "MPMCQueue 2 (Some [\<lparr>version = 9, value = 0 :: nat\<rparr>, \<lparr>version = 9, value = 0\<rparr>])
     = Inr \<lparr>m_items = [\<lparr>version = 0, value = 0\<rparr>, \<lparr>version = 1, value = 0\<rparr>],
            m_capacity = 2, m_head = 0, m_tail = 0\<rparr>"
    by (simp add: MPMCQueue_def ctor_loop.simps)
  have p: "0 < (2 :: u64)" by simp
  have b: "run [Enqueue (5 :: nat), Dequeue 0]
        \<lparr>m_items = [\<lparr>version = 0, value = 0\<rparr>, \<lparr>version = 1, value = 0\<rparr>],
         m_capacity = 2, m_head = 0, m_tail = 0\<rparr>
     = Inr ([Enqueued True, Dequeued True 5],
            \<lparr>m_items = [\<lparr>version = 2, value = 5\<rparr>, \<lparr>version = 1, value = 0\<rparr>],
             m_capacity = 2, m_head = 1, m_tail = 1\<rparr>)"
    by (simp add: try_enqueue_def try_dequeue_def slot_index_def compare_exchange_strong_def)
  have c: "try_dequeue (7 :: nat)
        \<lparr>m_items = [\<lparr>version = 2, value = 5\<rparr>, \<lparr>version = 1, value = 0\<rparr>],
         m_capacity = 2, m_head = 1, m_tail = 1\<rparr>
     = Inr (False, 7, \<lparr>m_items = [\<lparr>version = 2, value = 5\<rparr>, \<lparr>version = 1, value = 0\<rparr>],
                      m_capacity = 2, m_head = 1, m_tail = 1\<rparr>)"
    by (rule try_dequeue_on_empty [OF a p b]) simp_all
  from a p b c show ?thesis by blast
qed

section \<open>A run on a queue of capacity four\<close>

text \<open>
  Claim C4: on a queue of capacity 4, enqueuing A, B, C, D returns \<open>true\<close> four times;
  enqueuing E then returns \<open>false\<close> and leaves the queue, which holds A, B, C, D, as it
  was; a dequeue returns \<open>true\<close> with A; enqueuing E now returns \<open>true\<close>; three more
  dequeues return B, C, D in this order, one more returns E, and a last one, on the empty
  queue, returns \<open>false\<close> and leaves \<open>out\<close> as it was.
\<close>

theorem scenario_capacity_four:
  "let q0 = \<lparr>m_items = [\<lparr>version = 0, value = CHR ''?''\<rparr>, \<lparr>version = 1, value = CHR ''?''\<rparr>,
                        \<lparr>version = 2, value = CHR ''?''\<rparr>, \<lparr>version = 3, value = CHR ''?''\<rparr>],
             m_capacity = 4, m_head = 0, m_tail = 0\<rparr>;
       q4 = \<lparr>m_items = [\<lparr>version = 1, value = CHR ''A''\<rparr>, \<lparr>version = 2, value = CHR ''B''\<rparr>,
                        \<lparr>version = 3, value = CHR ''C''\<rparr>, \<lparr>version = 4, value = CHR ''D''\<rparr>],
             m_capacity = 4, m_head = 0, m_tail = 4\<rparr>;
       q12 = \<lparr>m_items = [\<lparr>version = 8, value = CHR ''E''\<rparr>, \<lparr>version = 5, value = CHR ''B''\<rparr>,
                         \<lparr>version = 6, value = CHR ''C''\<rparr>, \<lparr>version = 7, value = CHR ''D''\<rparr>],
              m_capacity = 4, m_head = 5, m_tail = 5\<rparr>
   in MPMCQueue 4 (Some [\<lparr>version = 0, value = CHR ''?''\<rparr>, \<lparr>version = 0, value = CHR ''?''\<rparr>,
                       \<lparr>version = 0, value = CHR ''?''\<rparr>, \<lparr>version = 0, value = CHR ''?''\<rparr>]) = Inr q0
    \<and> run [Enqueue CHR ''A'', Enqueue CHR ''B'', Enqueue CHR ''C'', Enqueue CHR ''D''] q0
        = Inr ([Enqueued True, Enqueued True, Enqueued True, Enqueued True], q4)
    \<and> try_enqueue CHR ''E'' q4 = Inr (False, q4)
    \<and> contents q4 = ''ABCD''
    \<and> run [Dequeue CHR ''-'', Enqueue CHR ''E'', Dequeue CHR ''-'', Dequeue CHR ''-'',
            Dequeue CHR ''-'', Dequeue CHR ''-'', Dequeue CHR ''-''] q4
        = Inr ([Dequeued True CHR ''A'', Enqueued True, Dequeued True CHR ''B'',
                Dequeued True CHR ''C'', Dequeued True CHR ''D'', Dequeued True CHR ''E'',
                Dequeued False CHR ''-''], q12)"
proof -
  have c: "MPMCQueue 4 (Some [\<lparr>version = 0, value = CHR ''?''\<rparr>, \<lparr>version = 0, value = CHR ''?''\<rparr>,
                    \<lparr>version = 0, value = CHR ''?''\<rparr>, \<lparr>version = 0, value = CHR ''?''\<rparr>])
     = Inr \<lparr>m_items = [\<lparr>version = 0, value = CHR ''?''\<rparr>, \<lparr>version = 1, value = CHR ''?''\<rparr>,
                        \<lparr>version = 2, value = CHR ''?''\<rparr>, \<lparr>version = 3, value = CHR ''?''\<rparr>],
             m_capacity = 4, m_head = 0, m_tail = 0\<rparr>"
    by (simp add: MPMCQueue_def ctor_loop.simps)
  have u: "[0 ..< 4] = [0, 1, 2, 3 :: nat]"
    by code_simp
  show ?thesis
    unfolding Let_def
    apply (intro conjI)
    subgoal using c by simp
    subgoal by (simp add: try_enqueue_def slot_index_def compare_exchange_strong_def)
    subgoal by (simp add: try_enqueue_def slot_index_def compare_exchange_strong_def)
    subgoal by (simp add: contents_def u)
    subgoal by (simp add: try_enqueue_def try_dequeue_def slot_index_def compare_exchange_strong_def)
    done
qed

section \<open>The slot-version protocol on a queue of capacity at least two\<close>

lemma mod_distinct:
  fixes n m N :: nat
  assumes "n < m" and "m < n + N"
  shows "n mod N \<noteq> m mod N"
proof
  assume "n mod N = m mod N"
  then have "m mod N = n mod N" by simp
  moreover have "n \<le> m" using assms(1) by simp
  ultimately have "N dvd m - n"
    by (simp add: mod_eq_dvd_iff_nat)
  moreover have "0 < m - n" and "m - n < N"
    using assms by simp_all
  ultimately show False
    by (meson nat_dvd_not_less)
qed

lemma residue_in_window:
  fixes H N n :: nat
  assumes "0 < N"
  shows "\<exists>m. H \<le> m \<and> m < H + N \<and> m mod N = n mod N"
proof -
  define d where "d = (n + (N - H mod N)) mod N"
  have "d < N" using assms by (simp add: d_def)
  have "H mod N < N" using assms by simp
  have "(H + d) mod N = (H mod N + d) mod N"
    by (simp add: mod_add_left_eq)
  also have "\<dots> = (H mod N + (n + (N - H mod N))) mod N"
    unfolding d_def by (simp add: mod_add_right_eq)
  also have "H mod N + (n + (N - H mod N)) = n + N"
    using \<open>H mod N < N\<close> by simp
  also have "(n + N) mod N = n mod N" by simp
  finally have "(H + d) mod N = n mod N" .
  with \<open>d < N\<close> show ?thesis
    by (intro exI [of _ "H + d"]) simp
qed

lemma fresh_lifecycle:
  assumes "MPMCQueue cap mem = Inr q" and "0 < cap"
  shows "lifecycle q" and "m_head q = 0" and "m_tail q = 0" and "m_capacity q = cap"
proof -
  from MPMCQueue_fresh [OF assms]
  have c: "m_capacity q = cap" and h: "m_head q = 0" and t: "m_tail q = 0"
    and v: "\<And>i. i < unat cap \<Longrightarrow> version (m_items q ! i) = of_nat i"
    by simp_all
  show "m_head q = 0" and "m_tail q = 0" and "m_capacity q = cap" by fact+
  have "unat (version (m_items q ! (n mod unat cap))) = n" if "n < unat cap" for n
  proof -
    have "unat cap < 2 ^ 64" using unsigned_less [of cap] by simp
    with that have "n < 2 ^ 64" by simp
    then have "unat (of_nat n :: u64) = n" by (simp add: unat_of_nat)
    with that v [of n] show ?thesis by simp
  qed
  with fresh_well_formed [OF assms] c h t show "lifecycle q"
    by (simp add: lifecycle_def)
qed

lemma contents_length:
  "length (contents q) = unat (m_tail q) - unat (m_head q)"
  by (simp add: contents_def)

lemma try_enqueue_not_full:
  assumes inv: "lifecycle q"
    and room: "unat (m_tail q) < unat (m_head q) + unat (m_capacity q)"
    and nowrap: "unat (m_head q) + unat (m_capacity q) < 2 ^ 64"
  shows "\<exists>q'. try_enqueue v q = Inr (True, q') \<and> lifecycle q' \<and>
           m_head q' = m_head q \<and> m_tail q' = m_tail q + 1 \<and>
           unat (m_tail q') = unat (m_tail q) + 1 \<and>
           m_capacity q' = m_capacity q \<and> contents q' = contents q @ [v]"
proof -
  define N where "N = unat (m_capacity q)"
  define H where "H = unat (m_head q)"
  define T where "T = unat (m_tail q)"
  define i where "i = T mod N"
  define q' where "q' = q\<lparr>m_items := (m_items q)[i := \<lparr>version = m_tail q + 1, value = v\<rparr>],
                          m_tail := m_tail q + 1\<rparr>"
  from inv have wf: "well_formed q" and HT: "H \<le> T"
    and pub: "\<And>n. H \<le> n \<Longrightarrow> n < T \<Longrightarrow> unat (version (m_items q ! (n mod N))) = n + 1"
    and free: "\<And>n. T \<le> n \<Longrightarrow> n < H + N \<Longrightarrow> unat (version (m_items q ! (n mod N))) = n"
    by (simp_all add: lifecycle_def N_def H_def T_def)
  from room have TN: "T < H + N" by (simp add: N_def H_def T_def)
  from nowrap have HN: "H + N < 2 ^ 64" by (simp add: N_def H_def T_def)
  have il: "i < length (m_items q)"
    using slot_index_well_formed(2) [OF wf, of "m_tail q"] by (simp add: i_def T_def N_def)
  have "unat (version (m_items q ! i)) = T"
    using free [of T] TN by (simp add: i_def)
  then have claim: "version (m_items q ! i) = m_tail q"
    by (simp add: T_def word_unat_eq_iff)
  have T': "unat (m_tail q + 1) = T + 1"
    using TN HN by (simp add: unat_succ T_def)
  have run: "try_enqueue v q = Inr (True, q')"
    using claim by (simp add: try_enqueue_well_formed [OF wf] Let_def q'_def i_def T_def N_def)
  have other: "m_items q' ! (n mod N) = m_items q ! (n mod N)" if "n mod N \<noteq> i" for n
    using that by (simp add: q'_def)
  have this_slot: "m_items q' ! i = \<lparr>version = m_tail q + 1, value = v\<rparr>"
    using il by (simp add: q'_def)
  have wf': "well_formed q'"
    using wf by (simp add: well_formed_def q'_def)
  have pub': "unat (version (m_items q' ! (n mod N))) = n + 1" if "H \<le> n" "n < T + 1" for n
  proof (cases "n = T")
    case True
    then show ?thesis using this_slot T' by (simp add: i_def)
  next
    case False
    with that have "n < T" by simp
    then have "n mod N \<noteq> T mod N"
      using that TN by (intro mod_distinct) simp_all
    then show ?thesis using pub [of n] other [of n] that \<open>n < T\<close> by (simp add: i_def)
  qed
  have free': "unat (version (m_items q' ! (n mod N))) = n" if "T + 1 \<le> n" "n < H + N" for n
  proof -
    have "T mod N \<noteq> n mod N"
      using that HT by (intro mod_distinct) simp_all
    then show ?thesis using free [of n] other [of n] that by (simp add: i_def)
  qed
  have inv': "lifecycle q'"
    unfolding lifecycle_def
    using wf' HT TN pub' free' T'
    by (simp add: q'_def N_def [symmetric] H_def [symmetric] T_def [symmetric])
  have "contents q' = map (\<lambda>n. value (m_items q' ! (n mod N))) ([H ..< T] @ [T])"
    using HT T' by (simp add: contents_def q'_def N_def [symmetric] H_def [symmetric])
  also have "\<dots> = map (\<lambda>n. value (m_items q' ! (n mod N))) [H ..< T] @ [v]"
    using this_slot by (simp add: i_def)
  also have "map (\<lambda>n. value (m_items q' ! (n mod N))) [H ..< T]
               = map (\<lambda>n. value (m_items q ! (n mod N))) [H ..< T]"
  proof (rule map_cong [OF refl])
    fix n assume "n \<in> set [H ..< T]"
    then have "n < T" and "T < n + N" using TN by simp_all
    then have "n mod N \<noteq> T mod N" by (rule mod_distinct)
    then show "value (m_items q' ! (n mod N)) = value (m_items q ! (n mod N))"
      using other [of n] by (simp add: i_def)
  qed
  finally have "contents q' = contents q @ [v]"
    by (simp add: contents_def N_def H_def T_def)
  with run inv' T' show ?thesis
    by (intro exI [of _ q']) (simp add: q'_def T_def)
qed

lemma try_enqueue_full:
  assumes inv: "lifecycle q"
    and full: "unat (m_tail q) = unat (m_head q) + unat (m_capacity q)"
    and two: "2 \<le> unat (m_capacity q)"
  shows "try_enqueue v q = Inr (False, q)"
proof -
  define N where "N = unat (m_capacity q)"
  define H where "H = unat (m_head q)"
  define T where "T = unat (m_tail q)"
  from inv have wf: "well_formed q"
    and pub: "\<And>n. H \<le> n \<Longrightarrow> n < T \<Longrightarrow> unat (version (m_items q ! (n mod N))) = n + 1"
    by (simp_all add: lifecycle_def N_def H_def T_def)
  from full two have T: "T = H + N" and N: "2 \<le> N" by (simp_all add: N_def H_def T_def)
  have "T mod N = H mod N" using T by simp
  moreover have "unat (version (m_items q ! (H mod N))) = H + 1"
    using pub [of H] T N by simp
  ultimately have "unat (version (m_items q ! (T mod N))) \<noteq> T"
    using T N by simp
  then have "version (m_items q ! (T mod N)) \<noteq> m_tail q"
    by (auto simp: T_def)
  then show ?thesis
    by (simp add: try_enqueue_well_formed [OF wf] Let_def T_def N_def)
qed

lemma try_dequeue_not_empty:
  assumes inv: "lifecycle q"
    and some: "unat (m_head q) < unat (m_tail q)"
    and nowrap: "unat (m_head q) + unat (m_capacity q) < 2 ^ 64"
  shows "\<exists>q'. try_dequeue out q = Inr (True, hd (contents q), q') \<and> lifecycle q' \<and>
           m_head q' = m_head q + 1 \<and> m_tail q' = m_tail q \<and>
           unat (m_head q') = unat (m_head q) + 1 \<and>
           m_capacity q' = m_capacity q \<and> contents q' = tl (contents q)"
proof -
  define N where "N = unat (m_capacity q)"
  define H where "H = unat (m_head q)"
  define T where "T = unat (m_tail q)"
  define i where "i = H mod N"
  define q' where "q' = q\<lparr>m_items := (m_items q)[i := (m_items q ! i)\<lparr>version := m_head q + m_capacity q\<rparr>],
                          m_head := m_head q + 1\<rparr>"
  from inv have wf: "well_formed q" and TN: "T \<le> H + N"
    and pub: "\<And>n. H \<le> n \<Longrightarrow> n < T \<Longrightarrow> unat (version (m_items q ! (n mod N))) = n + 1"
    and free: "\<And>n. T \<le> n \<Longrightarrow> n < H + N \<Longrightarrow> unat (version (m_items q ! (n mod N))) = n"
    by (simp_all add: lifecycle_def N_def H_def T_def)
  from some have HT: "H < T" by (simp add: H_def T_def)
  from nowrap have HN: "H + N < 2 ^ 64" by (simp add: N_def H_def T_def)
  from wf have N0: "0 < N" by (simp add: well_formed_def N_def unat_gt_0)
  have il: "i < length (m_items q)"
    using slot_index_well_formed(2) [OF wf, of "m_head q"] by (simp add: i_def H_def N_def)
  have H': "unat (m_head q + 1) = H + 1"
    using HT TN HN by (simp add: unat_succ H_def)
  have V': "unat (m_head q + m_capacity q) = H + N"
    using HN by (simp add: unat_plus H_def N_def)
  have "unat (version (m_items q ! i)) = H + 1"
    using pub [of H] HT by (simp add: i_def)
  then have claim: "version (m_items q ! i) = m_head q + 1"
    using H' by (simp add: word_unat_eq_iff)
  have run: "try_dequeue out q = Inr (True, value (m_items q ! i), q')"
    using claim by (simp add: try_dequeue_well_formed [OF wf] Let_def q'_def i_def H_def N_def)
  have other: "m_items q' ! (n mod N) = m_items q ! (n mod N)" if "n mod N \<noteq> i" for n
    using that by (simp add: q'_def)
  have this_slot: "m_items q' ! i = (m_items q ! i)\<lparr>version := m_head q + m_capacity q\<rparr>"
    using il by (simp add: q'_def)
  have vals: "value (m_items q' ! k) = value (m_items q ! k)" for k
    using il by (cases "k = i") (simp_all add: q'_def)
  have wf': "well_formed q'"
    using wf by (simp add: well_formed_def q'_def)
  have pub': "unat (version (m_items q' ! (n mod N))) = n + 1" if "H + 1 \<le> n" "n < T" for n
  proof -
    have "H mod N \<noteq> n mod N"
      using that TN by (intro mod_distinct) simp_all
    then show ?thesis using pub [of n] other [of n] that by (simp add: i_def)
  qed
  have free': "unat (version (m_items q' ! (n mod N))) = n" if "T \<le> n" "n < H + 1 + N" for n
  proof (cases "n = H + N")
    case True
    then have "n mod N = i" by (simp add: i_def)
    then show ?thesis using this_slot V' True by simp
  next
    case False
    with that have "n < H + N" by simp
    moreover have "H mod N \<noteq> n mod N"
      using that HT \<open>n < H + N\<close> by (intro mod_distinct) simp_all
    ultimately show ?thesis using free [of n] other [of n] that by (simp add: i_def)
  qed
  have inv': "lifecycle q'"
    unfolding lifecycle_def
    using wf' HT TN pub' free' H'
    by (simp add: q'_def N_def [symmetric] H_def [symmetric] T_def [symmetric])
  have split: "[H ..< T] = H # [H + 1 ..< T]"
    using HT by (simp add: upt_conv_Cons)
  have c: "contents q = value (m_items q ! i) # map (\<lambda>n. value (m_items q ! (n mod N))) [H + 1 ..< T]"
    unfolding contents_def N_def [symmetric] H_def [symmetric] T_def [symmetric] split
    by (simp add: i_def)
  have c': "contents q' = map (\<lambda>n. value (m_items q ! (n mod N))) [H + 1 ..< T]"
    using H' vals by (simp add: contents_def q'_def N_def [symmetric] H_def [symmetric] T_def [symmetric])
  from run inv' H' c c' show ?thesis
    by (intro exI [of _ q']) (simp add: q'_def H_def)
qed

lemma try_dequeue_empty:
  assumes inv: "lifecycle q"
    and none: "unat (m_head q) = unat (m_tail q)"
    and nowrap: "unat (m_head q) + unat (m_capacity q) < 2 ^ 64"
  shows "try_dequeue out q = Inr (False, out, q)"
proof -
  define N where "N = unat (m_capacity q)"
  define H where "H = unat (m_head q)"
  from inv none have wf: "well_formed q"
    and free: "\<And>n. H \<le> n \<Longrightarrow> n < H + N \<Longrightarrow> unat (version (m_items q ! (n mod N))) = n"
    by (simp_all add: lifecycle_def N_def H_def)
  from wf have N0: "0 < N" by (simp add: well_formed_def N_def unat_gt_0)
  from nowrap N0 have "unat (m_head q + 1) = H + 1"
    by (simp add: unat_succ H_def N_def)
  moreover have "unat (version (m_items q ! (H mod N))) = H"
    using free [of H] N0 by simp
  ultimately have "version (m_items q ! (H mod N)) \<noteq> m_head q + 1"
    by auto
  then show ?thesis
    by (simp add: try_dequeue_well_formed [OF wf] Let_def H_def N_def)
qed

lemma step_lifecycle:
  assumes inv: "lifecycle q"
    and two: "2 \<le> unat (m_capacity q)"
    and nowrap: "unat (m_head q) + unat (m_capacity q) < 2 ^ 64"
  shows "\<exists>r q'. step c q = Inr (r, q') \<and> lifecycle q' \<and> m_capacity q' = m_capacity q \<and>
           unat (m_head q') \<le> unat (m_head q) + 1 \<and>
           contents q @ enqueued_values [c] [r] = dequeued_values [r] @ contents q'"
proof (cases c)
  case (Enqueue v)
  show ?thesis
  proof (cases "unat (m_tail q) < unat (m_head q) + unat (m_capacity q)")
    case True
    from try_enqueue_not_full [OF inv True nowrap, of v] Enqueue show ?thesis
      by auto
  next
    case False
    with inv have "unat (m_tail q) = unat (m_head q) + unat (m_capacity q)"
      by (simp add: lifecycle_def)
    from try_enqueue_full [OF inv this two, of v] Enqueue inv show ?thesis
      by simp
  qed
next
  case (Dequeue out)
  show ?thesis
  proof (cases "unat (m_head q) < unat (m_tail q)")
    case True
    then have "contents q \<noteq> []"
      using contents_length [of q] by auto
    then have "contents q = hd (contents q) # tl (contents q)" by simp
    with try_dequeue_not_empty [OF inv True nowrap, of out] Dequeue show ?thesis
      by auto
  next
    case False
    with inv have "unat (m_head q) = unat (m_tail q)"
      by (simp add: lifecycle_def)
    from try_dequeue_empty [OF inv this nowrap, of out] Dequeue inv show ?thesis
      by simp
  qed
qed

lemma enqueued_values_Cons:
  "enqueued_values (c # cs) (r # rs) = enqueued_values [c] [r] @ enqueued_values cs rs"
  by (cases "(c # cs, r # rs)" rule: enqueued_values.cases) auto

lemma dequeued_values_Cons:
  "dequeued_values (r # rs) = dequeued_values [r] @ dequeued_values rs"
  by (cases "r # rs" rule: dequeued_values.cases) auto

lemma run_lifecycle:
  assumes "lifecycle q" and "2 \<le> unat (m_capacity q)"
    and "unat (m_head q) + unat (m_capacity q) + length cs < 2 ^ 64"
  shows "\<exists>rs q'. run cs q = Inr (rs, q') \<and> lifecycle q' \<and> m_capacity q' = m_capacity q \<and>
           length rs = length cs \<and>
           contents q @ enqueued_values cs rs = dequeued_values rs @ contents q'"
  using assms
proof (induction cs arbitrary: q)
  case Nil
  then show ?case by simp
next
  case (Cons c cs)
  from Cons.prems(3) have nowrap: "unat (m_head q) + unat (m_capacity q) < 2 ^ 64" by simp
  from step_lifecycle [OF Cons.prems(1,2) nowrap, of c]
  obtain r q1 where s: "step c q = Inr (r, q1)" and inv1: "lifecycle q1"
    and cap1: "m_capacity q1 = m_capacity q" and h1: "unat (m_head q1) \<le> unat (m_head q) + 1"
    and c1: "contents q @ enqueued_values [c] [r] = dequeued_values [r] @ contents q1"
    by blast
  have "unat (m_head q1) + unat (m_capacity q1) + length cs < 2 ^ 64"
    using Cons.prems(3) cap1 h1 by simp
  from Cons.IH [OF inv1 _ this] Cons.prems(2) cap1
  obtain rs q' where r: "run cs q1 = Inr (rs, q')" and inv': "lifecycle q'"
    and cap': "m_capacity q' = m_capacity q1" and len: "length rs = length cs"
    and c': "contents q1 @ enqueued_values cs rs = dequeued_values rs @ contents q'"
    by auto
  have "contents q @ enqueued_values (c # cs) (r # rs)
          = (contents q @ enqueued_values [c] [r]) @ enqueued_values cs rs"
    by (simp add: enqueued_values_Cons [of c cs r rs])
  also have "\<dots> = dequeued_values [r] @ (contents q1 @ enqueued_values cs rs)"
    by (simp add: c1)
  also have "\<dots> = dequeued_values (r # rs) @ contents q'"
    by (simp add: c' dequeued_values_Cons [of r rs])
  finally have "contents q @ enqueued_values (c # cs) (r # rs) = dequeued_values (r # rs) @ contents q'" .
  with s r inv' cap' cap1 len show ?case by simp
qed

lemma reachable_lifecycle:
  assumes "MPMCQueue cap mem = Inr q0" and "2 \<le> unat cap" and "length cs + unat cap < 2 ^ 64"
  shows "\<exists>rs q. run cs q0 = Inr (rs, q) \<and> lifecycle q \<and> m_capacity q = cap"
proof -
  from assms(2) have pos: "0 < cap" by (auto simp: word_greater_zero_iff)
  from fresh_lifecycle [OF assms(1) pos]
  have inv: "lifecycle q0" and h: "m_head q0 = 0" and c: "m_capacity q0 = cap"
    by simp_all
  from run_lifecycle [OF inv, of cs] assms(2,3) h c show ?thesis by auto
qed

lemma lifecycle_exact:
  assumes inv: "lifecycle q" and two: "2 \<le> unat (m_capacity q)"
  shows "unat (version (m_items q ! (n mod unat (m_capacity q)))) = n \<longleftrightarrow>
           unat (m_tail q) \<le> n \<and> n < unat (m_head q) + unat (m_capacity q)"
    and "unat (version (m_items q ! (n mod unat (m_capacity q)))) = n + 1 \<longleftrightarrow>
           unat (m_head q) \<le> n \<and> n < unat (m_tail q)"
proof -
  define N where "N = unat (m_capacity q)"
  define H where "H = unat (m_head q)"
  define T where "T = unat (m_tail q)"
  from inv have HT: "H \<le> T" and TN: "T \<le> H + N"
    and pub: "\<And>k. H \<le> k \<Longrightarrow> k < T \<Longrightarrow> unat (version (m_items q ! (k mod N))) = k + 1"
    and free: "\<And>k. T \<le> k \<Longrightarrow> k < H + N \<Longrightarrow> unat (version (m_items q ! (k mod N))) = k"
    by (simp_all add: lifecycle_def N_def H_def T_def)
  from two have N: "2 \<le> N" by (simp add: N_def)
  then have "0 < N" by simp
  from residue_in_window [OF this, of H n]
  obtain m where m: "H \<le> m" "m < H + N" "m mod N = n mod N" by blast
  have next_slot: "k mod N \<noteq> (k + 1) mod N" for k
    using N by (intro mod_distinct) simp_all
  have a: "unat (version (m_items q ! (n mod N))) = n \<longleftrightarrow> T \<le> n \<and> n < H + N"
  proof
    assume v: "unat (version (m_items q ! (n mod N))) = n"
    show "T \<le> n \<and> n < H + N"
    proof (cases "m < T")
      case True
      with pub [of m] m v have "n = m + 1" by simp
      with m(3) next_slot [of m] show ?thesis by simp
    next
      case False
      with free [of m] m v have "n = m" by simp
      with False m show ?thesis by simp
    qed
  next
    assume "T \<le> n \<and> n < H + N"
    then show "unat (version (m_items q ! (n mod N))) = n" using free [of n] by simp
  qed
  have b: "unat (version (m_items q ! (n mod N))) = n + 1 \<longleftrightarrow> H \<le> n \<and> n < T"
  proof
    assume v: "unat (version (m_items q ! (n mod N))) = n + 1"
    show "H \<le> n \<and> n < T"
    proof (cases "m < T")
      case True
      with pub [of m] m v have "n = m" by simp
      with True m show ?thesis by simp
    next
      case False
      with free [of m] m v have "m = n + 1" by simp
      with m(3) next_slot [of n] show ?thesis by simp
    qed
  next
    assume "H \<le> n \<and> n < T"
    then show "unat (version (m_items q ! (n mod N))) = n + 1" using pub [of n] by simp
  qed
  from a show "unat (version (m_items q ! (n mod unat (m_capacity q)))) = n \<longleftrightarrow>
           unat (m_tail q) \<le> n \<and> n < unat (m_head q) + unat (m_capacity q)"
    by (simp add: N_def H_def T_def)
  from b show "unat (version (m_items q ! (n mod unat (m_capacity q)))) = n + 1 \<longleftrightarrow>
           unat (m_head q) \<le> n \<and> n < unat (m_tail q)"
    by (simp add: N_def H_def T_def)
qed

lemma slot_versions_reachable:
  assumes "MPMCQueue cap mem = Inr q0" and "2 \<le> unat cap" and "length cs + unat cap < 2 ^ 64"
  shows "\<exists>rs q. run cs q0 = Inr (rs, q) \<and>
           (\<forall>n. (unat (version (m_items q ! (n mod unat cap))) = n \<longleftrightarrow>
                   unat (m_tail q) \<le> n \<and> n < unat (m_head q) + unat cap) \<and>
                (unat (version (m_items q ! (n mod unat cap))) = n + 1 \<longleftrightarrow>
                   unat (m_head q) \<le> n \<and> n < unat (m_tail q)))"
proof -
  from reachable_lifecycle [OF assms]
  obtain rs q where r: "run cs q0 = Inr (rs, q)" and inv: "lifecycle q" and c: "m_capacity q = cap"
    by blast
  from assms(2) c have two: "2 \<le> unat (m_capacity q)" by simp
  from lifecycle_exact [OF inv two] c r show ?thesis by auto
qed

lemma lifecycle_occupancy:
  assumes "lifecycle q"
  shows "m_head q \<le> m_tail q" and "m_tail q - m_head q \<le> m_capacity q"
    and "unat (m_tail q - m_head q) = length (contents q)"
proof -
  from assms have HT: "unat (m_head q) \<le> unat (m_tail q)"
    and TN: "unat (m_tail q) \<le> unat (m_head q) + unat (m_capacity q)"
    by (simp_all add: lifecycle_def)
  from HT show le: "m_head q \<le> m_tail q" by (simp add: word_le_nat_alt)
  then have sub: "unat (m_tail q - m_head q) = unat (m_tail q) - unat (m_head q)"
    by (rule unat_sub)
  with TN show "m_tail q - m_head q \<le> m_capacity q" by (simp add: word_le_nat_alt)
  from sub show "unat (m_tail q - m_head q) = length (contents q)"
    by (simp add: contents_length)
qed

lemma occupancy_reachable:
  assumes "MPMCQueue cap mem = Inr q0" and "2 \<le> unat cap" and "length cs + unat cap < 2 ^ 64"
  shows "\<exists>rs q. run cs q0 = Inr (rs, q) \<and> m_head q \<le> m_tail q \<and> m_tail q - m_head q \<le> cap"
proof -
  from reachable_lifecycle [OF assms]
  obtain rs q where r: "run cs q0 = Inr (rs, q)" and inv: "lifecycle q" and c: "m_capacity q = cap"
    by blast
  from lifecycle_occupancy(1,2) [OF inv] c r show ?thesis by auto
qed

lemma enqueue_all:
  assumes "lifecycle q"
    and "unat (m_head q) + unat (m_capacity q) < 2 ^ 64"
    and "unat (m_tail q) + length vs \<le> unat (m_head q) + unat (m_capacity q)"
  shows "\<exists>q'. run (map Enqueue vs) q = Inr (map (\<lambda>v. Enqueued True) vs, q') \<and> lifecycle q' \<and>
           m_head q' = m_head q \<and> m_capacity q' = m_capacity q \<and>
           unat (m_tail q') = unat (m_tail q) + length vs \<and> contents q' = contents q @ vs"
  using assms
proof (induction vs arbitrary: q)
  case Nil
  then show ?case by simp
next
  case (Cons v vs)
  from Cons.prems(3) have room: "unat (m_tail q) < unat (m_head q) + unat (m_capacity q)" by simp
  from try_enqueue_not_full [OF Cons.prems(1) room Cons.prems(2), of v]
  obtain q1 where e: "try_enqueue v q = Inr (True, q1)" and inv1: "lifecycle q1"
    and h1: "m_head q1 = m_head q" and c1: "m_capacity q1 = m_capacity q"
    and t1: "unat (m_tail q1) = unat (m_tail q) + 1" and k1: "contents q1 = contents q @ [v]"
    by blast
  have "unat (m_head q1) + unat (m_capacity q1) < 2 ^ 64"
    using Cons.prems(2) h1 c1 by simp
  moreover have "unat (m_tail q1) + length vs \<le> unat (m_head q1) + unat (m_capacity q1)"
    using Cons.prems(3) h1 c1 t1 by simp
  ultimately obtain q' where "run (map Enqueue vs) q1 = Inr (map (\<lambda>v. Enqueued True) vs, q')"
    and "lifecycle q'" and "m_head q' = m_head q1" and "m_capacity q' = m_capacity q1"
    and "unat (m_tail q') = unat (m_tail q1) + length vs" and "contents q' = contents q1 @ vs"
    using Cons.IH [OF inv1] by blast
  with e h1 c1 t1 k1 show ?case by simp
qed

lemma enqueue_until_full:
  assumes "MPMCQueue cap mem = Inr q0" and "2 \<le> unat cap" and "length vs = unat cap"
  shows "\<exists>q. run (map Enqueue vs) q0 = Inr (map (\<lambda>v. Enqueued True) vs, q) \<and>
           try_enqueue v q = Inr (False, q) \<and> contents q = vs"
proof -
  from assms(2) have pos: "0 < cap" by (auto simp: word_greater_zero_iff)
  from fresh_lifecycle [OF assms(1) pos]
  have inv: "lifecycle q0" and h: "m_head q0 = 0" and t: "m_tail q0 = 0" and c: "m_capacity q0 = cap"
    by simp_all
  have bound: "unat cap < 2 ^ 64" using unsigned_less [of cap] by simp
  from enqueue_all [OF inv, of vs] h t c bound assms(3)
  obtain q where r: "run (map Enqueue vs) q0 = Inr (map (\<lambda>v. Enqueued True) vs, q)"
    and inv': "lifecycle q" and h': "m_head q = 0" and c': "m_capacity q = cap"
    and t': "unat (m_tail q) = unat cap" and k: "contents q = contents q0 @ vs"
    by auto
  have "try_enqueue v q = Inr (False, q)"
    using inv' h' c' t' assms(2) by (intro try_enqueue_full) simp_all
  moreover have "contents q0 = []" using h t by (simp add: contents_def)
  ultimately show ?thesis using r k by simp
qed

text \<open>
  On a queue of capacity at least 2 each call does what a bounded first-in first-out
  queue does on \<open>contents\<close>: \<open>try_enqueue\<close> appends the value and returns \<open>true\<close> when
  fewer than \<open>capacity\<close> values are held, and returns \<open>false\<close> and changes nothing
  otherwise; \<open>try_dequeue\<close> returns \<open>true\<close> with the oldest value and removes it when a
  value is held, and returns \<open>false\<close> and changes nothing otherwise.  So the values
  enqueued into a new queue come back, all of them and in their order.
\<close>

lemma try_enqueue_refines:
  assumes inv: "lifecycle q" and two: "2 \<le> unat (m_capacity q)"
    and nowrap: "unat (m_head q) + unat (m_capacity q) < 2 ^ 64"
  shows "\<exists>q'. try_enqueue v q = Inr (length (contents q) < unat (m_capacity q), q') \<and>
           lifecycle q' \<and> m_capacity q' = m_capacity q \<and>
           contents q' = (if length (contents q) < unat (m_capacity q) then contents q @ [v]
                          else contents q) \<and>
           (length (contents q) < unat (m_capacity q) \<or> q' = q)"
proof (cases "unat (m_tail q) < unat (m_head q) + unat (m_capacity q)")
  case True
  moreover from inv have "unat (m_head q) \<le> unat (m_tail q)" by (simp add: lifecycle_def)
  ultimately have "length (contents q) < unat (m_capacity q)"
    by (simp add: contents_length)
  with try_enqueue_not_full [OF inv True nowrap, of v] show ?thesis by auto
next
  case False
  with inv have full: "unat (m_tail q) = unat (m_head q) + unat (m_capacity q)"
    by (simp add: lifecycle_def)
  then have "\<not> length (contents q) < unat (m_capacity q)"
    by (simp add: contents_length)
  with try_enqueue_full [OF inv full two, of v] inv show ?thesis by simp
qed

lemma try_dequeue_refines:
  assumes inv: "lifecycle q"
    and nowrap: "unat (m_head q) + unat (m_capacity q) < 2 ^ 64"
  shows "\<exists>q'. try_dequeue out q
                 = Inr (contents q \<noteq> [], (if contents q = [] then out else hd (contents q)), q') \<and>
           lifecycle q' \<and> m_capacity q' = m_capacity q \<and>
           unat (m_head q') \<le> unat (m_head q) + 1 \<and> contents q' = tl (contents q) \<and>
           (contents q \<noteq> [] \<or> q' = q)"
proof (cases "unat (m_head q) < unat (m_tail q)")
  case True
  then have "contents q \<noteq> []"
    using contents_length [of q] by auto
  with try_dequeue_not_empty [OF inv True nowrap, of out] show ?thesis by auto
next
  case False
  with inv have none: "unat (m_head q) = unat (m_tail q)"
    by (simp add: lifecycle_def)
  then have "contents q = []"
    using contents_length [of q] by simp
  with try_dequeue_empty [OF inv none nowrap, of out] inv show ?thesis by simp
qed

lemma run_append:
  "run (cs @ ds) q =
     (case run cs q of
        Inl e \<Rightarrow> Inl e
      | Inr (rs, q') \<Rightarrow>
          (case run ds q' of Inl e \<Rightarrow> Inl e | Inr (rs', q'') \<Rightarrow> Inr (rs @ rs', q'')))"
  by (induction cs arbitrary: q) (auto split: sum.splits)

lemma dequeue_all:
  assumes "lifecycle q"
    and "unat (m_head q) + unat (m_capacity q) + length outs < 2 ^ 64"
    and "length outs = length (contents q)"
  shows "\<exists>q'. run (map Dequeue outs) q = Inr (map (Dequeued True) (contents q), q') \<and>
           lifecycle q' \<and> m_capacity q' = m_capacity q \<and> contents q' = [] \<and>
           unat (m_head q') + unat (m_capacity q') < 2 ^ 64"
  using assms
proof (induction outs arbitrary: q)
  case Nil
  then show ?case by simp
next
  case (Cons out outs)
  from Cons.prems(2) have nowrap: "unat (m_head q) + unat (m_capacity q) < 2 ^ 64" by simp
  from Cons.prems(3) have ne: "contents q \<noteq> []" by auto
  from try_dequeue_refines [OF Cons.prems(1) nowrap, of out] ne
  obtain q1 where d: "try_dequeue out q = Inr (True, hd (contents q), q1)" and inv1: "lifecycle q1"
    and c1: "m_capacity q1 = m_capacity q" and h1: "unat (m_head q1) \<le> unat (m_head q) + 1"
    and k1: "contents q1 = tl (contents q)"
    by auto
  have "unat (m_head q1) + unat (m_capacity q1) + length outs < 2 ^ 64"
    using Cons.prems(2) c1 h1 by simp
  moreover have "length outs = length (contents q1)"
    using Cons.prems(3) k1 by simp
  ultimately obtain q' where "run (map Dequeue outs) q1 = Inr (map (Dequeued True) (contents q1), q')"
    and "lifecycle q'" and "m_capacity q' = m_capacity q1" and "contents q' = []"
    and "unat (m_head q') + unat (m_capacity q') < 2 ^ 64"
    using Cons.IH [OF inv1] by blast
  moreover have "contents q = hd (contents q) # contents q1"
    using ne k1 by simp
  ultimately show ?case using d c1
    by (simp del: map_eq_Cons_conv) (metis list.simps(9))
qed

lemma enqueue_then_dequeue_all:
  assumes "MPMCQueue cap mem = Inr q0" and "2 \<le> unat cap"
    and "length vs \<le> unat cap" and "length outs = length vs"
    and "unat cap + length vs < 2 ^ 64"
  shows "\<exists>q. run (map Enqueue vs @ map Dequeue outs) q0
               = Inr (map (\<lambda>v. Enqueued True) vs @ map (Dequeued True) vs, q) \<and>
             try_dequeue out q = Inr (False, out, q)"
proof -
  from assms(2) have pos: "0 < cap" by (auto simp: word_greater_zero_iff)
  from fresh_lifecycle [OF assms(1) pos]
  have inv: "lifecycle q0" and h: "m_head q0 = 0" and t: "m_tail q0 = 0" and c: "m_capacity q0 = cap"
    by simp_all
  have e0: "contents q0 = []" using h t by (simp add: contents_def)
  from enqueue_all [OF inv, of vs] h t c assms(3,5)
  obtain q1 where r1: "run (map Enqueue vs) q0 = Inr (map (\<lambda>v. Enqueued True) vs, q1)"
    and inv1: "lifecycle q1" and h1: "m_head q1 = 0" and c1: "m_capacity q1 = cap"
    and k1: "contents q1 = contents q0 @ vs"
    by auto
  from k1 e0 have k1': "contents q1 = vs" by simp
  from dequeue_all [OF inv1, of outs] h1 c1 k1' assms(4,5)
  obtain q where r2: "run (map Dequeue outs) q1 = Inr (map (Dequeued True) vs, q)"
    and inv2: "lifecycle q" and k2: "contents q = []"
    and nw: "unat (m_head q) + unat (m_capacity q) < 2 ^ 64"
    by auto
  from try_dequeue_refines [OF inv2 nw, of out] k2
  have "try_dequeue out q = Inr (False, out, q)"
    by auto
  with r1 r2 show ?thesis by (simp add: run_append)
qed

section \<open>A queue of capacity one\<close>

lemma fresh_single_slot:
  assumes "MPMCQueue 1 mem = Inr q"
  shows "single_slot q [] []"
proof -
  have pos: "0 < (1 :: u64)" by simp
  from MPMCQueue_fresh(1,2,3) [OF assms pos] MPMCQueue_fresh(5) [OF assms pos, of 0]
  have "m_capacity q = 1" "m_head q = 0" "m_tail q = 0" "version (m_items q ! 0) = 0"
    by simp_all
  with fresh_well_formed [OF assms pos] show ?thesis
    by (simp add: single_slot_def)
qed

lemma step_single_slot:
  assumes inv: "single_slot q es ds" and nowrap: "length es + 1 < 2 ^ 64"
  shows "\<exists>r q'. step c q = Inr (r, q') \<and>
           single_slot q' (es @ enqueued_values [c] [r]) (ds @ dequeued_values [r])"
proof -
  from inv have wf: "well_formed q" and cap: "m_capacity q = 1"
    and ver: "version (m_items q ! 0) = m_tail q"
    and T: "unat (m_tail q) = length es" and H: "unat (m_head q) = length ds"
    and pre: "ds = take (length ds) es"
    and lst: "es \<noteq> [] \<Longrightarrow> value (m_items q ! 0) = last es"
    by (simp_all add: single_slot_def)
  have "length ds = length (take (length ds) es)"
    using pre by simp
  then have le: "length ds \<le> length es"
    by simp
  from wf cap have len: "0 < length (m_items q)"
    by (auto simp: well_formed_def)
  show ?thesis
  proof (cases c)
    case (Enqueue v)
    define q' where "q' = q\<lparr>m_items := (m_items q)[0 := \<lparr>version = m_tail q + 1, value = v\<rparr>],
                            m_tail := m_tail q + 1\<rparr>"
    have run: "try_enqueue v q = Inr (True, q')"
      using ver cap by (simp add: try_enqueue_well_formed [OF wf] Let_def q'_def)
    have T': "unat (m_tail q + 1) = length es + 1"
      using nowrap T by (simp add: unat_succ)
    have wf': "well_formed q'"
      using wf by (simp add: well_formed_def q'_def)
    have "single_slot q' (es @ [v]) ds"
      using wf' cap len T' H pre le by (simp add: single_slot_def) (simp add: q'_def)
    with run Enqueue show ?thesis by simp
  next
    case (Dequeue out)
    have H': "unat (m_head q + 1) = length ds + 1"
      using nowrap H le by (simp add: unat_succ)
    show ?thesis
    proof (cases "m_tail q = m_head q + 1")
      case True
      define q' where "q' = q\<lparr>m_items := (m_items q)[0 := (m_items q ! 0)\<lparr>version := m_head q + m_capacity q\<rparr>],
                              m_head := m_head q + 1\<rparr>"
      have run: "try_dequeue out q = Inr (True, value (m_items q ! 0), q')"
        using ver cap True by (simp add: try_dequeue_well_formed [OF wf] Let_def q'_def)
      from True T H' have n: "length es = length ds + 1" by simp
      then have "es \<noteq> []" by auto
      then have "value (m_items q ! 0) = last es" by (rule lst)
      also have "\<dots> = es ! length ds"
        using n \<open>es \<noteq> []\<close> by (simp add: last_conv_nth)
      finally have v: "value (m_items q ! 0) = es ! length ds" .
      have lt: "length ds < length es" using n by simp
      have "take (Suc (length ds)) es = take (length ds) es @ [es ! length ds]"
        by (rule take_Suc_conv_app_nth [OF lt])
      with pre have pre': "ds @ [es ! length ds] = take (length (ds @ [es ! length ds])) es"
        by simp
      have wf': "well_formed q'"
        using wf by (simp add: well_formed_def q'_def)
      have "single_slot q' es (ds @ [value (m_items q ! 0)])"
        unfolding v
        using wf' cap len T H' pre' True lst n
        by (simp add: single_slot_def) (simp add: q'_def)
      with run Dequeue show ?thesis by simp
    next
      case False
      then have "try_dequeue out q = Inr (False, out, q)"
        using ver cap by (simp add: try_dequeue_well_formed [OF wf] Let_def)
      with inv Dequeue show ?thesis by simp
    qed
  qed
qed

lemma run_single_slot:
  assumes "single_slot q es ds" and "length es + length cs < 2 ^ 64"
  shows "\<exists>rs q'. run cs q = Inr (rs, q') \<and> length rs = length cs \<and>
           single_slot q' (es @ enqueued_values cs rs) (ds @ dequeued_values rs)"
  using assms
proof (induction cs arbitrary: q es ds)
  case Nil
  then show ?case by simp
next
  case (Cons c cs)
  from Cons.prems(2) have "length es + 1 < 2 ^ 64" by simp
  from step_single_slot [OF Cons.prems(1) this, of c]
  obtain r q1 where s: "step c q = Inr (r, q1)"
    and inv1: "single_slot q1 (es @ enqueued_values [c] [r]) (ds @ dequeued_values [r])"
    by blast
  have "length (enqueued_values [c] [r]) \<le> 1"
    by (cases "([c], [r])" rule: enqueued_values.cases) auto
  with Cons.prems(2) have "length (es @ enqueued_values [c] [r]) + length cs < 2 ^ 64"
    by simp
  from Cons.IH [OF inv1 this]
  obtain rs q' where r: "run cs q1 = Inr (rs, q')" and len: "length rs = length cs"
    and inv': "single_slot q' ((es @ enqueued_values [c] [r]) @ enqueued_values cs rs)
                 ((ds @ dequeued_values [r]) @ dequeued_values rs)"
    by blast
  from inv' have "single_slot q' (es @ enqueued_values (c # cs) (r # rs)) (ds @ dequeued_values (r # rs))"
    by (simp add: enqueued_values_Cons [of c cs r rs] dequeued_values_Cons [of r rs])
  with s r len show ?case by simp
qed

text \<open>
  A queue of capacity 1 is never full: in every state it reaches, \<open>try_enqueue\<close> returns
  \<open>true\<close>.
\<close>

lemma capacity_one_enqueue_succeeds:
  assumes "MPMCQueue 1 mem = Inr q0" and "length cs + 1 < 2 ^ 64" and "run cs q0 = Inr (rs, q)"
  shows "\<exists>q'. try_enqueue v q = Inr (True, q')"
proof -
  from run_single_slot [OF fresh_single_slot [OF assms(1)], of cs] assms(2,3)
  have "single_slot q (enqueued_values cs rs) (dequeued_values rs)" by auto
  then have wf: "well_formed q" and "m_capacity q = 1" and "version (m_items q ! 0) = m_tail q"
    by (simp_all add: single_slot_def)
  then show ?thesis
    by (simp add: try_enqueue_well_formed [OF wf] Let_def)
qed

text \<open>
  With \<open>head = tail\<close> the slot at \<open>head mod capacity\<close> never carries the version
  \<open>head + 1\<close> of a published value, for any capacity.
\<close>

lemma head_eq_tail_not_published:
  assumes "MPMCQueue cap mem = Inr q0" and "0 < cap" and "length cs + unat cap < 2 ^ 64"
    and "run cs q0 = Inr (rs, q)" and "m_head q = m_tail q"
  shows "version (m_items q ! unat (m_head q mod m_capacity q)) \<noteq> m_head q + 1"
proof (cases "2 \<le> unat cap")
  case True
  from fresh_lifecycle [OF assms(1,2)]
  have inv0: "lifecycle q0" and h0: "m_head q0 = 0" and c0: "m_capacity q0 = cap"
    by simp_all
  from run_lifecycle [OF inv0, of cs] True assms(3,4) h0 c0
  have inv: "lifecycle q" and c: "m_capacity q = cap" by auto
  from inv assms(5) have "unat (version (m_items q ! (unat (m_head q) mod unat (m_capacity q)))) = unat (m_head q)"
    using True c by (simp add: lifecycle_def)
  then have "version (m_items q ! (unat (m_head q) mod unat (m_capacity q))) = m_head q"
    by (simp add: word_unat_eq_iff)
  then show ?thesis
    by (simp add: unat_mod)
next
  case False
  moreover from assms(2) have "0 < unat cap" by (simp add: unat_gt_0)
  ultimately have "unat cap = 1" by simp
  then have one: "cap = 1" by (metis unat_1 word_unat_eq_iff)
  from run_single_slot [OF fresh_single_slot [OF assms(1) [unfolded one]], of cs] assms(3,4) one
  have "single_slot q (enqueued_values cs rs) (dequeued_values rs)" by auto
  then have "version (m_items q ! 0) = m_tail q" and "m_capacity q = 1"
    by (simp_all add: single_slot_def)
  with assms(5) show ?thesis by simp
qed

text \<open>
  Claim C1: in every reachable state the slot at \<open>n mod capacity\<close> carries version \<open>n\<close>
  exactly when it is empty and waits for the value of sequence \<open>n\<close>, and version \<open>n + 1\<close>
  exactly when it holds the published value of sequence \<open>n\<close>; consuming that value sets
  the version to \<open>n + capacity\<close> (\<open>slot_versions_reachable\<close> proves this for a capacity
  of at least 2).  For capacity 1 the code does otherwise, \<open>n + 1\<close> and \<open>n + capacity\<close>
  being the same version: after A is enqueued the only slot holds A, published for
  sequence 0 and not consumed, with version 1, and this is the version of a slot that
  waits for sequence 1.  Both a \<open>try_dequeue\<close> at sequence 0 and a \<open>try_enqueue\<close> at
  sequence 1 claim it, and the latter overwrites A.
\<close>

theorem capacity_one_version_collision:
  "let q0 = \<lparr>m_items = [\<lparr>version = 0, value = CHR ''?''\<rparr>], m_capacity = 1, m_head = 0, m_tail = 0\<rparr>;
       q1 = \<lparr>m_items = [\<lparr>version = 1, value = CHR ''A''\<rparr>], m_capacity = 1, m_head = 0, m_tail = 1\<rparr>
   in MPMCQueue 1 (Some [\<lparr>version = 0, value = CHR ''?''\<rparr>]) = Inr q0
    \<and> run [Enqueue CHR ''A''] q0 = Inr ([Enqueued True], q1)
    \<and> contents q1 = ''A''
    \<and> version (m_items q1 ! unat (1 mod m_capacity q1)) = 1
    \<and> try_enqueue CHR ''B'' q1
        = Inr (True, \<lparr>m_items = [\<lparr>version = 2, value = CHR ''B''\<rparr>], m_capacity = 1,
                      m_head = 0, m_tail = 2\<rparr>)
    \<and> version (m_items q1 ! unat (0 mod m_capacity q1)) = 0 + 1
    \<and> try_dequeue CHR ''-'' q1
        = Inr (True, CHR ''A'', \<lparr>m_items = [\<lparr>version = 1, value = CHR ''A''\<rparr>], m_capacity = 1,
                                 m_head = 1, m_tail = 1\<rparr>)"
  by (simp add: MPMCQueue_def ctor_loop.simps try_enqueue_def try_dequeue_def slot_index_def
      compare_exchange_strong_def Let_def contents_def)

text \<open>
  Claim C2: on a new queue of capacity \<open>N \<ge> 1\<close>, without a dequeue in between, the first
  \<open>N\<close> calls of \<open>try_enqueue\<close> return \<open>true\<close> and call \<open>N + 1\<close> returns \<open>false\<close> and
  leaves the queue as it was (\<open>enqueue_until_full\<close> proves this for \<open>N \<ge> 2\<close>).
  For \<open>N = 1\<close> the code does otherwise: the second call returns \<open>true\<close> as well,
  advances \<open>tail\<close> to 2 and overwrites the value A, which was not dequeued, by B
  (by \<open>capacity_one_enqueue_succeeds\<close> no call of \<open>try_enqueue\<close> returns \<open>false\<close>).
\<close>

theorem capacity_one_never_full:
  "let q0 = \<lparr>m_items = [\<lparr>version = 0, value = CHR ''?''\<rparr>], m_capacity = 1, m_head = 0, m_tail = 0\<rparr>;
       q1 = \<lparr>m_items = [\<lparr>version = 1, value = CHR ''A''\<rparr>], m_capacity = 1, m_head = 0, m_tail = 1\<rparr>;
       q2 = \<lparr>m_items = [\<lparr>version = 2, value = CHR ''B''\<rparr>], m_capacity = 1, m_head = 0, m_tail = 2\<rparr>
   in MPMCQueue 1 (Some [\<lparr>version = 0, value = CHR ''?''\<rparr>]) = Inr q0
    \<and> try_enqueue CHR ''A'' q0 = Inr (True, q1)
    \<and> try_enqueue CHR ''B'' q1 = Inr (True, q2)
    \<and> q2 \<noteq> q1"
  by (simp add: MPMCQueue_def ctor_loop.simps try_enqueue_def slot_index_def
      compare_exchange_strong_def Let_def)

text \<open>
  Claim C10: in every state that a new queue of capacity \<open>N\<close> reaches, \<open>head \<le> tail\<close> and
  \<open>tail - head \<le> N\<close> (\<open>occupancy_reachable\<close> proves this for \<open>N \<ge> 2\<close>).
  For \<open>N = 1\<close> the code does otherwise: after two calls of \<open>try_enqueue\<close>, which both
  return \<open>true\<close>, \<open>tail - head\<close> is 2; the version test at \<open>tail mod capacity\<close> does not
  stop \<open>tail\<close> at \<open>head + N\<close>.
\<close>

theorem capacity_one_overrun:
  "let q0 = \<lparr>m_items = [\<lparr>version = 0, value = CHR ''?''\<rparr>], m_capacity = 1, m_head = 0, m_tail = 0\<rparr>;
       q2 = \<lparr>m_items = [\<lparr>version = 2, value = CHR ''B''\<rparr>], m_capacity = 1, m_head = 0, m_tail = 2\<rparr>
   in MPMCQueue 1 (Some [\<lparr>version = 0, value = CHR ''?''\<rparr>]) = Inr q0
    \<and> run [Enqueue CHR ''A'', Enqueue CHR ''B''] q0 = Inr ([Enqueued True, Enqueued True], q2)
    \<and> m_tail q2 - m_head q2 = 2 \<and> m_capacity q2 = 1
    \<and> \<not> m_tail q2 - m_head q2 \<le> m_capacity q2"
  by (simp add: MPMCQueue_def ctor_loop.simps try_enqueue_def slot_index_def
      compare_exchange_strong_def Let_def word_le_nat_alt)

text \<open>
  Claim C9: every value that the producer threads enqueue is dequeued exactly once by the
  consumer threads.  A schedule in which the threads' calls do not overlap is a run of
  this model, and on a queue of capacity 1 such a schedule loses values: a producer
  enqueues A and B, both calls return \<open>true\<close>; every \<open>try_dequeue\<close> of a consumer after
  that returns \<open>false\<close> and leaves the queue as it was.  A and B are never dequeued.
\<close>

theorem capacity_one_loses_values:
  "let q0 = \<lparr>m_items = [\<lparr>version = 0, value = CHR ''?''\<rparr>], m_capacity = 1, m_head = 0, m_tail = 0\<rparr>;
       q2 = \<lparr>m_items = [\<lparr>version = 2, value = CHR ''B''\<rparr>], m_capacity = 1, m_head = 0, m_tail = 2\<rparr>;
       cs = [Enqueue CHR ''A'', Enqueue CHR ''B'', Dequeue CHR ''-'', Dequeue CHR ''-''];
       rs = [Enqueued True, Enqueued True, Dequeued False CHR ''-'', Dequeued False CHR ''-'']
   in MPMCQueue 1 (Some [\<lparr>version = 0, value = CHR ''?''\<rparr>]) = Inr q0
    \<and> run cs q0 = Inr (rs, q2)
    \<and> try_dequeue CHR ''-'' q2 = Inr (False, CHR ''-'', q2)
    \<and> enqueued_values cs rs = ''AB''
    \<and> dequeued_values rs = []"
  by (simp add: MPMCQueue_def ctor_loop.simps try_enqueue_def try_dequeue_def slot_index_def
      compare_exchange_strong_def Let_def)

section \<open>First in, first out\<close>

text \<open>
  At every capacity the successful dequeues return values in the order in which they were
  enqueued: the values dequeued in a run are the leading part of the values enqueued in
  it.  With capacity 1 values are lost, none is returned out of its turn.
\<close>

lemma dequeued_prefix_of_enqueued:
  assumes "MPMCQueue cap mem = Inr q0" and "0 < cap" and "length cs + unat cap < 2 ^ 64"
  shows "\<exists>rs q. run cs q0 = Inr (rs, q) \<and>
           dequeued_values rs = take (length (dequeued_values rs)) (enqueued_values cs rs) \<and>
           (2 \<le> unat cap \<longrightarrow> enqueued_values cs rs = dequeued_values rs @ contents q)"
proof (cases "2 \<le> unat cap")
  case True
  from fresh_lifecycle [OF assms(1,2)]
  have inv: "lifecycle q0" and h: "m_head q0 = 0" and t: "m_tail q0 = 0" and c: "m_capacity q0 = cap"
    by simp_all
  from h t have e: "contents q0 = []" by (simp add: contents_def)
  from run_lifecycle [OF inv, of cs] True assms(3) h c e
  obtain rs q where "run cs q0 = Inr (rs, q)"
    and "enqueued_values cs rs = dequeued_values rs @ contents q"
    by auto
  then show ?thesis by auto
next
  case False
  moreover from assms(2) have "0 < unat cap" by (simp add: unat_gt_0)
  ultimately have "unat cap = 1" by simp
  then have one: "cap = 1" by (metis unat_1 word_unat_eq_iff)
  from run_single_slot [OF fresh_single_slot [OF assms(1) [unfolded one]], of cs] assms(3) one
  obtain rs q where r: "run cs q0 = Inr (rs, q)"
    and "single_slot q (enqueued_values cs rs) (dequeued_values rs)"
    by auto
  then have "dequeued_values rs = take (length (dequeued_values rs)) (enqueued_values cs rs)"
    by (simp add: single_slot_def)
  with r False show ?thesis by auto
qed

text \<open>
  Claim C3: when one thread enqueues a sequence of values and every \<open>try_enqueue\<close>
  succeeds, the successful calls of \<open>try_dequeue\<close> that follow return exactly these
  values in the order they were enqueued (\<open>enqueue_then_dequeue_all\<close> proves this for a
  capacity of at least 2).  With capacity 1 the code does otherwise: A, B and C are
  enqueued, each \<open>try_enqueue\<close> returns \<open>true\<close>, and each \<open>try_dequeue\<close> after that
  returns \<open>false\<close> and leaves \<open>out\<close> as it was; no value comes back.  Dequeued at once, A
  does come back, and B and C enqueued after that are lost in the same way.
\<close>

theorem capacity_one_fifo_broken:
  "let q0 = \<lparr>m_items = [\<lparr>version = 0, value = CHR ''?''\<rparr>], m_capacity = 1, m_head = 0, m_tail = 0\<rparr>;
       q3 = \<lparr>m_items = [\<lparr>version = 3, value = CHR ''C''\<rparr>], m_capacity = 1, m_head = 0, m_tail = 3\<rparr>;
       q3' = \<lparr>m_items = [\<lparr>version = 3, value = CHR ''C''\<rparr>], m_capacity = 1, m_head = 1, m_tail = 3\<rparr>
   in MPMCQueue 1 (Some [\<lparr>version = 0, value = CHR ''?''\<rparr>]) = Inr q0
    \<and> run [Enqueue CHR ''A'', Enqueue CHR ''B'', Enqueue CHR ''C'',
            Dequeue CHR ''-'', Dequeue CHR ''-'', Dequeue CHR ''-''] q0
        = Inr ([Enqueued True, Enqueued True, Enqueued True,
                Dequeued False CHR ''-'', Dequeued False CHR ''-'', Dequeued False CHR ''-''], q3)
    \<and> run [Enqueue CHR ''A'', Dequeue CHR ''-'', Enqueue CHR ''B'', Enqueue CHR ''C'',
            Dequeue CHR ''-'', Dequeue CHR ''-''] q0
        = Inr ([Enqueued True, Dequeued True CHR ''A'', Enqueued True, Enqueued True,
                Dequeued False CHR ''-'', Dequeued False CHR ''-''], q3')"
  by (simp add: MPMCQueue_def ctor_loop.simps try_enqueue_def try_dequeue_def slot_index_def
      compare_exchange_strong_def Let_def)

end
